theory Spec2Isabelle
  imports Complex_Main "HOL-Library.Word" "HOL-Library.Char_ord" "HOL-Library.List_Lexorder"
begin

unbundle bit_operations_syntax

section \<open>JavaScript values used by the data pipeline\<close>

text \<open>
  A JavaScript number is a finite double, NaN or one of the two infinities. A finite double
  is a rational number, so finite numbers are modelled by their exact rational value and the
  arithmetic on them is exact (rounding of IEEE doubles is outside of this model).
  A JavaScript string is a list of code units, modelled as a \<open>char list\<close>.
\<close>

datatype jsnum = Fin rat | NaN | PosInf | NegInf

text \<open>\<open>RawNumeric\<close> (\<open>NumLike\<close>): a number, a string, \<open>null\<close> or \<open>undefined\<close>.\<close>

datatype jsval = VUndef | VNull | VNum jsnum | VStr string

text \<open>\<open>Number.isFinite\<close> on a number.\<close>

fun isFinite :: "jsnum \<Rightarrow> bool" where
  "isFinite (Fin q) = True"
| "isFinite NaN = False"
| "isFinite PosInf = False"
| "isFinite NegInf = False"

subsection \<open>The builtin \<open>Number(string)\<close>\<close>

text \<open>
  \<open>Number\<close> applied to a string follows the StringNumericLiteral grammar of ECMAScript:
  white space is trimmed, the empty string is 0, then a signed decimal literal (with an
  optional fraction and exponent), a signed \<open>Infinity\<close>, or an unsigned hexadecimal, octal
  or binary integer literal; everything else is NaN. The value of a literal is its exact
  rational value.
\<close>

definition is_ws :: "char \<Rightarrow> bool" where
  "is_ws c = (c \<in> {CHR 0x09, CHR 0x0A, CHR 0x0B, CHR 0x0C, CHR 0x0D, CHR 0x20, CHR 0xA0})"

definition trim :: "string \<Rightarrow> string" where
  "trim s = rev (dropWhile is_ws (rev (dropWhile is_ws s)))"

definition digit_of :: "int \<Rightarrow> char \<Rightarrow> int option" where
  "digit_of base c =
     (let n = (of_char c :: int);
          v = (if 48 \<le> n \<and> n \<le> 57 then Some (n - 48)
               else if 97 \<le> n \<and> n \<le> 102 then Some (n - 87)
               else if 65 \<le> n \<and> n \<le> 70 then Some (n - 55)
               else None)
      in case v of None \<Rightarrow> None | Some d \<Rightarrow> (if d < base then Some d else None))"

definition is_digit :: "int \<Rightarrow> char \<Rightarrow> bool" where
  "is_digit base c = (digit_of base c \<noteq> None)"

definition digits_val :: "int \<Rightarrow> string \<Rightarrow> int" where
  "digits_val base s = foldl (\<lambda>a c. base * a + (case digit_of base c of Some d \<Rightarrow> d | None \<Rightarrow> 0)) 0 s"

definition scale10 :: "rat \<Rightarrow> int \<Rightarrow> rat" where
  "scale10 m e = (if 0 \<le> e then m * 10 ^ nat e else m / 10 ^ nat (- e))"

text \<open>An unsigned literal in a given base: at least one digit, nothing else.\<close>

definition radix_literal :: "int \<Rightarrow> string \<Rightarrow> jsnum" where
  "radix_literal base s =
     (if s \<noteq> [] \<and> list_all (is_digit base) s then Fin (of_int (digits_val base s)) else NaN)"

text \<open>The exponent part after the mantissa: empty, or \<open>e\<close>/\<open>E\<close>, an optional sign and digits.\<close>

definition exponent_part :: "string \<Rightarrow> int option" where
  "exponent_part s =
     (case s of
        [] \<Rightarrow> Some 0
      | c # r \<Rightarrow>
          if c = CHR ''e'' \<or> c = CHR ''E'' then
            (let (neg, ds) = (case r of
                                [] \<Rightarrow> (False, [])
                              | x # r' \<Rightarrow> if x = CHR ''-'' then (True, r')
                                          else if x = CHR ''+'' then (False, r')
                                          else (False, r))
             in if ds \<noteq> [] \<and> list_all (is_digit 10) ds
                then Some (if neg then - digits_val 10 ds else digits_val 10 ds)
                else None)
          else None)"

text \<open>An unsigned decimal literal: \<open>Infinity\<close>, \<open>12\<close>, \<open>12.\<close>, \<open>12.5\<close>, \<open>.5\<close>, each with an exponent.\<close>

definition unsigned_decimal :: "string \<Rightarrow> jsnum" where
  "unsigned_decimal s =
     (if s = ''Infinity'' then PosInf
      else
        let ip = takeWhile (is_digit 10) s;
            r1 = dropWhile (is_digit 10) s;
            (fp, r2) = (case r1 of
                          [] \<Rightarrow> ([], [])
                        | c # r \<Rightarrow> if c = CHR ''.''
                                    then (takeWhile (is_digit 10) r, dropWhile (is_digit 10) r)
                                    else ([], r1))
        in if ip = [] \<and> fp = [] then NaN
           else case exponent_part r2 of
                  None \<Rightarrow> NaN
                | Some e \<Rightarrow> Fin (scale10 (of_int (digits_val 10 (ip @ fp))) (e - int (length fp))))"

fun negate :: "jsnum \<Rightarrow> jsnum" where
  "negate (Fin q) = Fin (- q)"
| "negate NaN = NaN"
| "negate PosInf = NegInf"
| "negate NegInf = PosInf"

definition js_Number :: "string \<Rightarrow> jsnum" where
  "js_Number str =
     (let s = trim str in
      case s of
        [] \<Rightarrow> Fin 0
      | c # r \<Rightarrow>
          if c = CHR ''-'' then negate (unsigned_decimal r)
          else if c = CHR ''+'' then unsigned_decimal r
          else if c = CHR ''0'' \<and> r \<noteq> [] \<and> hd r \<in> {CHR ''x'', CHR ''X''} then radix_literal 16 (tl r)
          else if c = CHR ''0'' \<and> r \<noteq> [] \<and> hd r \<in> {CHR ''o'', CHR ''O''} then radix_literal 8 (tl r)
          else if c = CHR ''0'' \<and> r \<noteq> [] \<and> hd r \<in> {CHR ''b'', CHR ''B''} then radix_literal 2 (tl r)
          else unsigned_decimal s)"

section \<open>Numeric coercion (lib/utils.ts)\<close>

text \<open>\<open>toNumber\<close>: \<open>None\<close> is the result \<open>undefined\<close>.\<close>

definition toNumber :: "jsval \<Rightarrow> jsnum option" where
  "toNumber v =
     (case v of
        VNull \<Rightarrow> None
      | VUndef \<Rightarrow> None
      | VNum n \<Rightarrow> (if isFinite n then Some n else None)
      | VStr s \<Rightarrow> (let n = js_Number s in if isFinite n then Some n else None))"

definition toNumberStrict :: "jsval \<Rightarrow> jsnum \<Rightarrow> jsnum" where
  "toNumberStrict v fallback = (case toNumber v of Some n \<Rightarrow> n | None \<Rightarrow> fallback)"

section \<open>The manual exogenous grid\<close>

text \<open>\<open>String(v).replace(/[, ]/g, "")\<close>: every comma and every space is removed.\<close>

definition strip_commas_spaces :: "string \<Rightarrow> string" where
  "strip_commas_spaces s = filter (\<lambda>c. c \<noteq> CHR '','' \<and> c \<noteq> CHR '' '') s"

definition toNumberOrZero :: "jsval \<Rightarrow> jsnum" where
  "toNumberOrZero v =
     (if v = VNull \<or> v = VUndef \<or> v = VStr [] then Fin 0
      else let n = (case v of VNum x \<Rightarrow> x | VStr s \<Rightarrow> js_Number (strip_commas_spaces s) | _ \<Rightarrow> NaN)
           in if isFinite n then n else Fin 0)"

text \<open>
  \<open>ManualExogValue\<close> is \<open>Record<string, number[]>\<close>: a map from column names to arrays of
  numbers. Reading an array beyond its length gives \<open>undefined\<close>, and a missing column is
  replaced by the empty array (\<open>map[name] ?? []\<close>).
\<close>

definition cell_at :: "jsnum list \<Rightarrow> nat \<Rightarrow> jsval" where
  "cell_at col r = (if r < length col then VNum (col ! r) else VUndef)"

definition column_of :: "(string \<rightharpoonup> jsnum list) \<Rightarrow> string \<Rightarrow> jsnum list" where
  "column_of exog name = (case exog name of Some col \<Rightarrow> col | None \<Rightarrow> [])"

record exog_matrix =
  matrix_columns :: "string list"
  matrix_rows :: "jsnum list list"

text \<open>The inner loop of \<open>exogMapToMatrix\<close>: \<open>rows[r][c] = toNumberOrZero(col[r])\<close> for every row.\<close>

definition fill_column :: "jsnum list \<Rightarrow> nat \<Rightarrow> nat \<Rightarrow> jsnum list list \<Rightarrow> jsnum list list" where
  "fill_column col c horizon rows =
     fold (\<lambda>r rs. rs[r := (rs ! r)[c := toNumberOrZero (cell_at col r)]]) [0..<horizon] rows"

text \<open>
  \<open>exogMapToMatrix\<close>: a \<open>horizon\<close> by \<open>columns.length\<close> matrix of zeros, then one pass of the
  inner loop for every column index.
\<close>

definition exogMapToMatrix :: "(string \<rightharpoonup> jsnum list) \<Rightarrow> string list \<Rightarrow> nat \<Rightarrow> exog_matrix" where
  "exogMapToMatrix exog columns horizon =
     (let rows0 = replicate horizon (replicate (length columns) (Fin 0));
          rows = fold (\<lambda>c rs. fill_column (column_of exog (columns ! c)) c horizon rs)
                   [0..<length columns] rows0
      in \<lparr>matrix_columns = columns, matrix_rows = rows\<rparr>)"

section \<open>Arithmetic of doubles\<close>

text \<open>
  The histogram computes with doubles (IEEE 754 binary64). A finite double is a multiple of
  \<open>2^(e - 52)\<close> with at most 53 bits, for an exponent \<open>e\<close> from -1022 to 1023. The result
  of an arithmetic operation is the exact result rounded to the nearest double, a tie to the
  even one, and to an infinity from \<open>2^1024 - 2^970\<close> on. The sign of a zero is not modelled
  (it shows only in a division by zero, and the histogram never divides by zero).
\<close>

text \<open>The number of binary digits of a positive integer.\<close>

function bit_length :: "int \<Rightarrow> int" where
  "bit_length n = (if n \<le> 0 then 0 else 1 + bit_length (n div 2))"
  by pat_completeness auto
termination
  by (relation "measure nat") auto

definition pow2 :: "int \<Rightarrow> rat" where
  "pow2 e = (if 0 \<le> e then 2 ^ nat e else 1 / 2 ^ nat (- e))"

text \<open>The binary exponent of a positive rational \<open>a\<close>: \<open>2^e \<le> a < 2^(e + 1)\<close>.\<close>

definition ilog2 :: "rat \<Rightarrow> int" where
  "ilog2 a = (let (p, q) = quotient_of a; d = bit_length p - bit_length q
              in if pow2 d \<le> a then d else d - 1)"

definition round_half_even :: "rat \<Rightarrow> int" where
  "round_half_even x =
     (let f = \<lfloor>x\<rfloor>; r = x - of_int f
      in if r < 1 / 2 then f else if 1 / 2 < r then f + 1 else if even f then f else f + 1)"

text \<open>
  Rounding of an exact result to a double. The exponent of a double is at least -1022: below
  \<open>2^(-1022)\<close> the spacing of the doubles is \<open>2^(-1074)\<close>.
\<close>

definition double_exponent :: "rat \<Rightarrow> int" where
  "double_exponent a = max (ilog2 a) (- 1022)"

definition round_magnitude :: "rat \<Rightarrow> rat" where
  "round_magnitude a =
     (let u = pow2 (double_exponent a - 52)
      in of_int (round_half_even (a / u)) * u)"

definition round_double :: "rat \<Rightarrow> jsnum" where
  "round_double q =
     (if q = 0 then Fin 0
      else
        let r = round_magnitude \<bar>q\<bar>
        in if pow2 1024 \<le> r then (if 0 < q then PosInf else NegInf)
           else Fin (if 0 < q then r else - r))"

fun js_add :: "jsnum \<Rightarrow> jsnum \<Rightarrow> jsnum" where
  "js_add (Fin a) (Fin b) = round_double (a + b)"
| "js_add NaN y = NaN"
| "js_add x NaN = NaN"
| "js_add PosInf NegInf = NaN"
| "js_add NegInf PosInf = NaN"
| "js_add PosInf y = PosInf"
| "js_add NegInf y = NegInf"
| "js_add (Fin a) y = y"

definition js_sub :: "jsnum \<Rightarrow> jsnum \<Rightarrow> jsnum" where
  "js_sub x y = js_add x (negate y)"

fun js_sign :: "jsnum \<Rightarrow> int" where
  "js_sign (Fin q) = (if q < 0 then - 1 else if 0 < q then 1 else 0)"
| "js_sign PosInf = 1"
| "js_sign NegInf = - 1"
| "js_sign NaN = 0"

definition inf_of_sign :: "int \<Rightarrow> jsnum" where
  "inf_of_sign s = (if s = 0 then NaN else if 0 < s then PosInf else NegInf)"

fun js_mul :: "jsnum \<Rightarrow> jsnum \<Rightarrow> jsnum" where
  "js_mul (Fin a) (Fin b) = round_double (a * b)"
| "js_mul NaN y = NaN"
| "js_mul x NaN = NaN"
| "js_mul x y = inf_of_sign (js_sign x * js_sign y)"

fun js_div :: "jsnum \<Rightarrow> jsnum \<Rightarrow> jsnum" where
  "js_div (Fin a) (Fin b) = (if b = 0 then inf_of_sign (js_sign (Fin a)) else round_double (a / b))"
| "js_div NaN y = NaN"
| "js_div x NaN = NaN"
| "js_div (Fin a) y = Fin 0"
| "js_div x (Fin b) = inf_of_sign (js_sign x * (if b < 0 then - 1 else 1))"
| "js_div x y = NaN"

text \<open>\<open>Math.floor\<close>, and the comparisons \<open><\<close> and \<open><=\<close>, which are false of NaN.\<close>

fun js_floor :: "jsnum \<Rightarrow> jsnum" where
  "js_floor (Fin q) = Fin (of_int \<lfloor>q\<rfloor>)"
| "js_floor x = x"

fun js_lt :: "jsnum \<Rightarrow> jsnum \<Rightarrow> bool" where
  "js_lt (Fin a) (Fin b) = (a < b)"
| "js_lt NaN y = False"
| "js_lt x NaN = False"
| "js_lt x NegInf = False"
| "js_lt PosInf y = False"
| "js_lt x y = True"

fun js_le :: "jsnum \<Rightarrow> jsnum \<Rightarrow> bool" where
  "js_le (Fin a) (Fin b) = (a \<le> b)"
| "js_le NaN y = False"
| "js_le x NaN = False"
| "js_le NegInf y = True"
| "js_le x PosInf = True"
| "js_le x y = False"

datatype js_error = TypeError

section \<open>Histogram bins (components/charts/ErrorHistogram.tsx)\<close>

datatype hist_mode = Residual | Absolute

record HistRow =
  x0 :: jsnum
  x1 :: jsnum
  center :: jsnum
  count :: nat

text \<open>\<open>Math.round\<close> rounds to the nearest integer, a half upwards.\<close>

definition js_round :: "rat \<Rightarrow> int" where
  "js_round n = \<lfloor>n + 1 / 2\<rfloor>"

definition clamp :: "rat \<Rightarrow> int \<Rightarrow> int \<Rightarrow> int" where
  "clamp n lo hi = max lo (min hi (js_round n))"

text \<open>\<open>values.filter((v) => Number.isFinite(v))\<close>.\<close>

fun finite_values :: "jsnum list \<Rightarrow> rat list" where
  "finite_values [] = []"
| "finite_values (Fin q # vs) = q # finite_values vs"
| "finite_values (v # vs) = finite_values vs"

text \<open>
  The domain of the bins: \<open>Math.min(...clean)\<close> and \<open>Math.max(...clean)\<close>, made symmetric
  around zero in residual mode and cut at zero in absolute mode. Minimum, maximum, absolute
  value and negation of doubles are exact.
\<close>

definition hist_domain :: "rat list \<Rightarrow> hist_mode \<Rightarrow> rat \<times> rat" where
  "hist_domain clean mode =
     (let mn = fold min (tl clean) (hd clean);
          mx = fold max (tl clean) (hd clean)
      in case mode of
           Residual \<Rightarrow> (let a = max \<bar>mn\<bar> \<bar>mx\<bar> in (- a, a))
         | Absolute \<Rightarrow> (let m = max 0 mn in (m, max m mx)))"

text \<open>\<open>(max - min) / k || 1\<close>: a width that is zero (or NaN) is replaced by 1.\<close>

definition bin_width :: "rat \<Rightarrow> rat \<Rightarrow> int \<Rightarrow> jsnum" where
  "bin_width mn mx k =
     (let w = js_div (js_sub (Fin mx) (Fin mn)) (Fin (of_int k))
      in if w = Fin 0 \<or> w = NaN then Fin 1 else w)"

text \<open>
  The index of the bin of an in-domain value: \<open>Math.floor((v - min) / width)\<close>, raised to 0
  and lowered to \<open>k - 1\<close>.
\<close>

definition bin_index :: "rat \<Rightarrow> jsnum \<Rightarrow> int \<Rightarrow> rat \<Rightarrow> jsnum" where
  "bin_index mn width k v =
     (let idx = js_floor (js_div (js_sub (Fin v) (Fin mn)) width);
          idx = (if js_lt idx (Fin 0) then Fin 0 else idx);
          idx = (if js_le (Fin (of_int k)) idx then Fin (of_int k - 1) else idx)
      in idx)"

text \<open>
  One step of the counting loop: a value outside of the domain is skipped;
  \<open>rows[idx].count++\<close> throws a TypeError where \<open>rows[idx]\<close> is \<open>undefined\<close>, that is
  unless \<open>idx\<close> is an integer from 0 to the last index.
\<close>

definition count_value :: "rat \<Rightarrow> rat \<Rightarrow> jsnum \<Rightarrow> int \<Rightarrow> rat \<Rightarrow> HistRow list \<Rightarrow> js_error + HistRow list" where
  "count_value mn mx width k v rows =
     (if v < mn \<or> v > mx then Inr rows
      else case bin_index mn width k v of
             Fin i \<Rightarrow>
               if 0 \<le> i \<and> i = of_int \<lfloor>i\<rfloor> \<and> nat \<lfloor>i\<rfloor> < length rows
               then Inr (rows[nat \<lfloor>i\<rfloor> := (rows ! nat \<lfloor>i\<rfloor>)\<lparr>count := count (rows ! nat \<lfloor>i\<rfloor>) + 1\<rparr>])
               else Inl TypeError
           | _ \<Rightarrow> Inl TypeError)"

fun count_values :: "rat \<Rightarrow> rat \<Rightarrow> jsnum \<Rightarrow> int \<Rightarrow> rat list \<Rightarrow> HistRow list \<Rightarrow> js_error + HistRow list" where
  "count_values mn mx width k [] rows = Inr rows"
| "count_values mn mx width k (v # vs) rows =
     (case count_value mn mx width k v rows of
        Inl e \<Rightarrow> Inl e
      | Inr rows' \<Rightarrow> count_values mn mx width k vs rows')"

definition toHistogram :: "jsnum list \<Rightarrow> rat \<Rightarrow> hist_mode \<Rightarrow> js_error + HistRow list" where
  "toHistogram values bins mode =
     (let clean = finite_values values in
      if clean = [] then Inr []
      else
        let (mn, mx) = hist_domain clean mode;
            k = clamp bins 5 60;
            width = bin_width mn mx k;
            edges = map (\<lambda>i. js_add (Fin mn) (js_mul (Fin (of_nat i)) width)) [0..<Suc (nat k)];
            rows = map (\<lambda>i. \<lparr>x0 = edges ! i, x1 = edges ! (i + 1),
                                center = js_div (js_add (edges ! i) (edges ! (i + 1))) (Fin 2),
                                count = 0\<rparr>) [0..<nat k]
        in count_values mn mx width k clean rows)"

section \<open>Request defaults (the predict hook)\<close>

text \<open>
  A field of a request body is absent (\<open>undefined\<close>), \<open>null\<close> or carries a value. The
  operator \<open>??\<close> replaces the first two by its right-hand side.
\<close>

datatype 'a opt = Undefined | Null | Val 'a

fun nullish_or :: "'a opt \<Rightarrow> 'a \<Rightarrow> 'a" where
  "nullish_or (Val x) d = x"
| "nullish_or Undefined d = d"
| "nullish_or Null d = d"

record predict_flags =
  use_auto_exog :: "bool opt"
  exog_strategy :: "string opt"
  clip_non_negative :: "bool opt"
  floor_value :: "jsnum opt"

text \<open>The exogenous payload of a manual request: a map of columns or a matrix.\<close>

datatype exog_payload =
  ExogMap "(string \<times> jsnum list) list"
| ExogMatrix exog_matrix

record predict_input =
  req_horizon :: "jsnum opt"
  req_frequency :: "string opt"
  req_alpha :: jsval
  req_flags :: "predict_flags opt"
  req_exog :: "exog_payload opt"

text \<open>The constant \<open>DEFAULTS\<close> of lib/constants.ts.\<close>

record defaults =
  horizon_default :: jsnum
  frequency_default :: string
  alpha_default :: jsnum
  exogStrategy_default :: string
  clipNonNegative_default :: bool
  floor_default :: jsnum

definition DEFAULTS :: defaults where
  "DEFAULTS = \<lparr>horizon_default = Fin 14, frequency_default = ''D'', alpha_default = Fin (5 / 100),
                exogStrategy_default = ''smart'', clipNonNegative_default = True,
                floor_default = Fin 0\<rparr>"

text \<open>\<open>input.flags?.f ?? d\<close>: the field \<open>f\<close> of the flags when there are flags.\<close>

definition flag_or :: "predict_flags opt \<Rightarrow> (predict_flags \<Rightarrow> 'a opt) \<Rightarrow> 'a \<Rightarrow> 'a" where
  "flag_or fl f d = (case fl of Val x \<Rightarrow> nullish_or (f x) d | _ \<Rightarrow> d)"

definition withPredictDefaults :: "predict_input \<Rightarrow> predict_input" where
  "withPredictDefaults input =
     (let hasExog = (req_exog input \<noteq> Undefined \<and> req_exog input \<noteq> Null) in
      if \<not> hasExog then
        let alpha = (case req_alpha input of VNum a \<Rightarrow> a | _ \<Rightarrow> alpha_default DEFAULTS);
            frequency = nullish_or (req_frequency input) (frequency_default DEFAULTS);
            horizon = nullish_or (req_horizon input) (horizon_default DEFAULTS)
        in \<lparr>req_horizon = Val horizon,
            req_frequency = Val frequency,
            req_alpha = VNum alpha,
            req_flags = Val \<lparr>use_auto_exog = Val True,
                               exog_strategy = Val (flag_or (req_flags input) exog_strategy
                                                      (exogStrategy_default DEFAULTS)),
                               clip_non_negative = Val (flag_or (req_flags input) clip_non_negative
                                                          (clipNonNegative_default DEFAULTS)),
                               floor_value = Val (flag_or (req_flags input) floor_value
                                                    (floor_default DEFAULTS))\<rparr>,
            req_exog = Undefined\<rparr>
      else input)"

section \<open>CSV text (lib/utils.ts and the manual grid)\<close>

text \<open>\<open>xs.join(d)\<close> on an array of strings.\<close>

fun join :: "string \<Rightarrow> string list \<Rightarrow> string" where
  "join d [] = []"
| "join d [x] = x"
| "join d (x # y # xs) = x @ d @ join d (y # xs)"

text \<open>
  A record of \<open>toCSV\<close> is an object with string keys; it is modelled by the list of its own
  entries in the order of \<open>Object.keys\<close>. An own cell is a string, a number, \<open>null\<close> or
  \<open>undefined\<close>.
\<close>

type_synonym csv_record = "(string \<times> jsval) list"

text \<open>
  \<open>r[h]\<close> reads an own entry of the record; for a key that the record lacks it reads the
  member of that name inherited from \<open>Object.prototype\<close> (a function, or the prototype
  itself for \<open>__proto__\<close>), and \<open>undefined\<close> where there is none.
\<close>

datatype cell_value = Own jsval | Inherited string

definition object_prototype_members :: "string list" where
  "object_prototype_members =
     [''constructor'', ''hasOwnProperty'', ''isPrototypeOf'', ''propertyIsEnumerable'',
      ''toLocaleString'', ''toString'', ''valueOf'', ''__proto__'',
      ''__defineGetter__'', ''__defineSetter__'', ''__lookupGetter__'', ''__lookupSetter__'']"

definition get_field :: "csv_record \<Rightarrow> string \<Rightarrow> cell_value" where
  "get_field r h =
     (case map_of r h of
        Some v \<Rightarrow> Own v
      | None \<Rightarrow> if h \<in> set object_prototype_members then Inherited h else Own VUndef)"

text \<open>\<open>headerSet.add(k)\<close> keeps the first insertion of a key.\<close>

definition add_key :: "string \<Rightarrow> string list \<Rightarrow> string list" where
  "add_key k hs = (if k \<in> set hs then hs else hs @ [k])"

definition collect_headers :: "csv_record list \<Rightarrow> string list" where
  "collect_headers rows = fold (\<lambda>r hs. fold add_key (map fst r) hs) rows []"

text \<open>\<open>s.replace(/"/g, '""')\<close>.\<close>

fun double_quotes :: "string \<Rightarrow> string" where
  "double_quotes [] = []"
| "double_quotes (c # s) = (if c = CHR 0x22 then CHR 0x22 # CHR 0x22 # double_quotes s
                            else c # double_quotes s)"

text \<open>
  \<open>String(val)\<close>: a string is itself; the text of a number and the text of an inherited
  member (the source text of a function) are given by a parameter.
\<close>

definition js_String :: "(cell_value \<Rightarrow> string) \<Rightarrow> cell_value \<Rightarrow> string" where
  "js_String to_str val =
     (case val of
        Own (VStr s) \<Rightarrow> s
      | Own VNull \<Rightarrow> ''null''
      | Own VUndef \<Rightarrow> ''undefined''
      | _ \<Rightarrow> to_str val)"

text \<open>
  \<open>esc\<close>: \<open>null\<close> and \<open>undefined\<close> give the empty string; the text \<open>String(val)\<close> of any
  other value is quoted when it matches \<open>/[",\n]/\<close>.
\<close>

definition esc_text :: "string \<Rightarrow> string" where
  "esc_text s =
     (if CHR 0x22 \<in> set s \<or> CHR '','' \<in> set s \<or> CHR 0x0A \<in> set s
      then [CHR 0x22] @ double_quotes s @ [CHR 0x22] else s)"

definition esc :: "(cell_value \<Rightarrow> string) \<Rightarrow> cell_value \<Rightarrow> string" where
  "esc to_str val =
     (if val = Own VNull \<or> val = Own VUndef then []
      else esc_text (js_String to_str val))"

definition toCSV :: "(cell_value \<Rightarrow> string) \<Rightarrow> csv_record list \<Rightarrow> string \<Rightarrow> string" where
  "toCSV to_str rows delimiter =
     (if rows = [] then []
      else
        let headers = collect_headers rows;
            lines = join delimiter headers
                    # map (\<lambda>r. join delimiter (map (\<lambda>h. esc to_str (get_field r h)) headers)) rows
        in join [CHR 0x0A] lines)"

text \<open>
  The scanner of \<open>parseCSV\<close>: the finished rows, the current row, the current cell and the
  flag \<open>inQuotes\<close>.
\<close>

record scan_state =
  st_rows :: "string list list"
  st_row :: "string list"
  st_cur :: string
  st_inQuotes :: bool

text \<open>\<open>cur.replace(/""/g, '"')\<close>: pairs of quotes, from the left.\<close>

fun unescape_quotes :: "string \<Rightarrow> string" where
  "unescape_quotes (a # b # s) = (if a = CHR 0x22 \<and> b = CHR 0x22 then CHR 0x22 # unescape_quotes s
                                  else a # unescape_quotes (b # s))"
| "unescape_quotes s = s"

definition pushCell :: "scan_state \<Rightarrow> scan_state" where
  "pushCell st =
     (let unq = (if st_inQuotes st then unescape_quotes (st_cur st) else st_cur st)
      in st\<lparr>st_row := st_row st @ [unq], st_cur := [], st_inQuotes := False\<rparr>)"

definition pushRow :: "scan_state \<Rightarrow> scan_state" where
  "pushRow st = st\<lparr>st_rows := st_rows st @ [st_row st], st_row := []\<rparr>"

text \<open>
  The loop over the characters of the text. \<open>text[i + 1]\<close> is the head of the rest, and
  \<open>i++\<close> inside of the body drops it.
\<close>

function scan :: "string \<Rightarrow> scan_state \<Rightarrow> string \<Rightarrow> scan_state" where
  "scan delimiter st [] = st"
| "scan delimiter st (ch # rest) =
     (if ch = CHR 0x22 then
        (if st_inQuotes st \<and> rest \<noteq> [] \<and> hd rest = CHR 0x22
         then scan delimiter (st\<lparr>st_cur := st_cur st @ [CHR 0x22]\<rparr>) (tl rest)
         else scan delimiter (st\<lparr>st_inQuotes := \<not> st_inQuotes st\<rparr>) rest)
      else if [ch] = delimiter \<and> \<not> st_inQuotes st then scan delimiter (pushCell st) rest
      else if (ch = CHR 0x0A \<or> ch = CHR 0x0D) \<and> \<not> st_inQuotes st then
        scan delimiter (pushRow (pushCell st))
          (if ch = CHR 0x0D \<and> rest \<noteq> [] \<and> hd rest = CHR 0x0A then tl rest else rest)
      else scan delimiter (st\<lparr>st_cur := st_cur st @ [ch]\<rparr>) rest)"
  by pat_completeness auto
termination
  by (relation "measure (\<lambda>(d, st, s). length s)") auto

text \<open>\<open>while (rows.length && rows[rows.length - 1].every((c) => c === "")) rows.pop()\<close>.\<close>

definition drop_empty_trailing :: "string list list \<Rightarrow> string list list" where
  "drop_empty_trailing rows = rev (dropWhile (list_all (\<lambda>c. c = [])) (rev rows))"

definition parseCSV :: "string \<Rightarrow> string \<Rightarrow> string list \<times> string list list" where
  "parseCSV text delimiter =
     (let st = scan delimiter \<lparr>st_rows = [], st_row = [], st_cur = [], st_inQuotes = False\<rparr> text;
          st = pushCell st;
          st = (if st_row st \<noteq> [] then pushRow st else st);
          rows = drop_empty_trailing (st_rows st)
      in if rows = [] then ([], []) else (hd rows, tl rows))"

subsection \<open>Well-formed CSV cells\<close>

text \<open>
  The text that a cell stands for: \<open>null\<close> and \<open>undefined\<close> are the empty string, any other
  value is \<open>String(val)\<close>.
\<close>

definition cell_text :: "(cell_value \<Rightarrow> string) \<Rightarrow> cell_value \<Rightarrow> string" where
  "cell_text to_str val =
     (if val = Own VNull \<or> val = Own VUndef then [] else js_String to_str val)"

text \<open>A text without a double quote, the delimiter, a line feed or a carriage return.\<close>

definition plain_text :: "char \<Rightarrow> string \<Rightarrow> bool" where
  "plain_text dc s = list_all (\<lambda>c. c \<noteq> CHR 0x22 \<and> c \<noteq> dc \<and> c \<noteq> CHR 0x0A \<and> c \<noteq> CHR 0x0D) s"

text \<open>
  A carriage return alone does not make \<open>esc\<close> quote a cell: a cell with a carriage return
  is written safely only when a double quote, a comma or a line feed makes \<open>esc\<close> quote it.
\<close>

definition cell_ok :: "string \<Rightarrow> bool" where
  "cell_ok s = (CHR 0x0D \<in> set s \<longrightarrow> CHR 0x22 \<in> set s \<or> CHR '','' \<in> set s \<or> CHR 0x0A \<in> set s)"

text \<open>A field \<open>t\<close> of a line stands for the cell \<open>s\<close>: written as it is, or quoted.\<close>

definition encodes :: "char \<Rightarrow> string \<Rightarrow> string \<Rightarrow> bool" where
  "encodes dc t s = ((t = s \<and> plain_text dc s) \<or> t = [CHR 0x22] @ double_quotes s @ [CHR 0x22])"


section \<open>Stable stringify and hashing (lib/utils.ts)\<close>

text \<open>
  A value given to \<open>stableStringify\<close>: a primitive, an array or an object. Arrays and objects
  are references, and the set \<open>seen\<close> of the code holds references, so each array and object
  carries its address; a reference that occurs twice in a value is the same address twice.
  An object is the list of its entries in the order of \<open>Object.keys\<close>.
\<close>

datatype json =
  JUndef | JNull | JBool bool | JNum jsnum | JStr string
| JArr nat "json list"
| JObj nat "(string \<times> json) list"

text \<open>
  What \<open>sorter\<close> returns: fresh arrays and objects (their addresses play no role any more),
  with \<open>undefined\<close> where a reference was met again.
\<close>

datatype sorted_json =
  SUndef | SNull | SBool bool | SNum jsnum | SStr string
| SArr "sorted_json list"
| SObj "(string \<times> sorted_json) list"

text \<open>\<open>val[k]\<close>.\<close>

definition val_of :: "(string \<times> json) list \<Rightarrow> string \<Rightarrow> json" where
  "val_of kvs k = (case map_of kvs k of Some v \<Rightarrow> v | None \<Rightarrow> JUndef)"

text \<open>
  \<open>out[k] = v\<close> on an ordinary object, given by its entries in the order in which
  \<open>JSON.stringify\<close> visits them: the array indices (canonical numeric strings below
  \<open>2^32 - 1\<close>) in ascending order, then the other keys in the order of their creation.
  Assigning to \<open>__proto__\<close> creates no entry.
\<close>

definition is_array_index :: "string \<Rightarrow> bool" where
  "is_array_index s =
     (s \<noteq> [] \<and> list_all (is_digit 10) s \<and> (s = ''0'' \<or> hd s \<noteq> CHR ''0'') \<and>
      digits_val 10 s < 2 ^ 32 - 1)"

definition obj_set :: "(string \<times> 'v) list \<Rightarrow> string \<Rightarrow> 'v \<Rightarrow> (string \<times> 'v) list" where
  "obj_set props k v =
     (if k = ''__proto__'' then props
      else if k \<in> fst ` set props then map (\<lambda>p. if fst p = k then (k, v) else p) props
      else if is_array_index k then
        filter (\<lambda>p. is_array_index (fst p) \<and> digits_val 10 (fst p) < digits_val 10 k) props
        @ [(k, v)]
        @ filter (\<lambda>p. \<not> (is_array_index (fst p) \<and> digits_val 10 (fst p) < digits_val 10 k)) props
      else props @ [(k, v)])"

lemma val_of_size:
  "size (val_of kvs k) \<le> size_list (size_prod (\<lambda>_. 0) size) kvs"
  by (induction kvs) (auto simp: val_of_def)

text \<open>
  \<open>sorter\<close> with the set \<open>seen\<close> passed along: \<open>sorter_array\<close> is \<open>val.map(sorter)\<close>, and
  \<open>sorter_object\<close> is the loop over \<open>Object.keys(val).sort()\<close> that fills \<open>out\<close>.
\<close>

function sorter :: "nat set \<Rightarrow> json \<Rightarrow> sorted_json \<times> nat set"
  and sorter_array :: "nat set \<Rightarrow> json list \<Rightarrow> sorted_json list \<times> nat set"
  and sorter_object :: "nat set \<Rightarrow> (string \<times> json) list \<Rightarrow> string list
        \<Rightarrow> (string \<times> sorted_json) list \<Rightarrow> (string \<times> sorted_json) list \<times> nat set"
where
  "sorter seen JUndef = (SUndef, seen)"
| "sorter seen JNull = (SNull, seen)"
| "sorter seen (JBool b) = (SBool b, seen)"
| "sorter seen (JNum n) = (SNum n, seen)"
| "sorter seen (JStr s) = (SStr s, seen)"
| "sorter seen (JArr a xs) =
     (if a \<in> seen then (SUndef, seen)
      else case sorter_array (insert a seen) xs of (rs, seen') \<Rightarrow> (SArr rs, seen'))"
| "sorter seen (JObj a kvs) =
     (if a \<in> seen then (SUndef, seen)
      else case sorter_object (insert a seen) kvs (sort (map fst kvs)) [] of
             (out, seen') \<Rightarrow> (SObj out, seen'))"
| "sorter_array seen [] = ([], seen)"
| "sorter_array seen (x # xs) =
     (case sorter seen x of (r, s) \<Rightarrow>
        case sorter_array s xs of (rs, s') \<Rightarrow> (r # rs, s'))"
| "sorter_object seen kvs [] out = (out, seen)"
| "sorter_object seen kvs (k # ks) out =
     (case sorter seen (val_of kvs k) of (r, s) \<Rightarrow> sorter_object s kvs ks (obj_set out k r))"
  by pat_completeness auto
termination
proof (relation "inv_image (less_than <*lex*> less_than)
    (\<lambda>x. case x of
       Inl (seen, v) \<Rightarrow> (2 * size v, 0)
     | Inr (Inl (seen, xs)) \<Rightarrow> (2 * size_list size xs + 1, length xs)
     | Inr (Inr (seen, kvs, ks, out)) \<Rightarrow> (2 * size_list (size_prod (\<lambda>_. 0) size) kvs + 1, length ks))")
  show "wf (inv_image (less_than <*lex*> less_than)
    (\<lambda>x. case x of
       Inl (seen, v) \<Rightarrow> (2 * size v, 0::nat)
     | Inr (Inl (seen, xs)) \<Rightarrow> (2 * size_list size xs + 1, length xs)
     | Inr (Inr (seen, kvs, ks, out)) \<Rightarrow> (2 * size_list (size_prod (\<lambda>_. 0) size) kvs + 1, length ks)))"
    by (intro wf_inv_image wf_lex_prod wf_less_than)
next
  fix seen :: "nat set" and kvs :: "(string \<times> json) list" and k ks and out :: "(string \<times> sorted_json) list"
  show "(Inl (seen, val_of kvs k), Inr (Inr (seen, kvs, k # ks, out)))
       \<in> inv_image (less_than <*lex*> less_than)
    (\<lambda>x. case x of
       Inl (seen, v) \<Rightarrow> (2 * size v, 0::nat)
     | Inr (Inl (seen, xs)) \<Rightarrow> (2 * size_list size xs + 1, length xs)
     | Inr (Inr (seen, kvs, ks, out)) \<Rightarrow> (2 * size_list (size_prod (\<lambda>_. 0) size) kvs + 1, length ks))"
    using val_of_size[of kvs k] by simp
qed simp_all

text \<open>\<open>h.toString(16)\<close>.\<close>

definition hex_digit :: "int \<Rightarrow> char" where
  "hex_digit n = ''0123456789abcdef'' ! nat n"

function to_hex :: "int \<Rightarrow> string" where
  "to_hex n = (if n < 16 then [hex_digit n] else to_hex (n div 16) @ [hex_digit (n mod 16)])"
  by pat_completeness auto
termination
  by (relation "measure nat") auto

text \<open>
  \<open>JSON.stringify\<close>: a string is quoted with the escapes of JSON; \<open>undefined\<close> is
  \<open>null\<close> inside of an array, is left out of an object, and makes the result \<open>undefined\<close>
  (here \<open>None\<close>) at the top. The text of a finite number is a parameter.
\<close>

definition json_escape :: "char \<Rightarrow> string" where
  "json_escape c =
     (if c = CHR 0x22 then [CHR 0x5C, CHR 0x22]
      else if c = CHR 0x5C then [CHR 0x5C, CHR 0x5C]
      else if c = CHR 0x08 then [CHR 0x5C, CHR ''b'']
      else if c = CHR 0x0C then [CHR 0x5C, CHR ''f'']
      else if c = CHR 0x0A then [CHR 0x5C, CHR ''n'']
      else if c = CHR 0x0D then [CHR 0x5C, CHR ''r'']
      else if c = CHR 0x09 then [CHR 0x5C, CHR ''t'']
      else if (of_char c :: int) < 32
        then [CHR 0x5C, CHR ''u'', CHR ''0'', CHR ''0'', hex_digit (of_char c div 16), hex_digit (of_char c mod 16)]
      else [c])"

definition json_quote :: "string \<Rightarrow> string" where
  "json_quote s = [CHR 0x22] @ concat (map json_escape s) @ [CHR 0x22]"

fun stringify :: "(jsnum \<Rightarrow> string) \<Rightarrow> sorted_json \<Rightarrow> string option" where
  "stringify num_str SUndef = None"
| "stringify num_str SNull = Some ''null''"
| "stringify num_str (SBool b) = Some (if b then ''true'' else ''false'')"
| "stringify num_str (SNum n) = Some (if isFinite n then num_str n else ''null'')"
| "stringify num_str (SStr s) = Some (json_quote s)"
| "stringify num_str (SArr xs) =
     Some (''['' @ join '','' (map (\<lambda>x. case stringify num_str x of None \<Rightarrow> ''null'' | Some t \<Rightarrow> t) xs) @ '']'')"
| "stringify num_str (SObj kvs) =
     Some (''{'' @ join '','' (concat (map (\<lambda>p. case stringify num_str (snd p) of
                                                   None \<Rightarrow> []
                                                 | Some t \<Rightarrow> [json_quote (fst p) @ '':'' @ t]) kvs)) @ ''}'')"

definition stableStringify :: "(jsnum \<Rightarrow> string) \<Rightarrow> json \<Rightarrow> string option" where
  "stableStringify num_str v = stringify num_str (fst (sorter {} v))"

text \<open>
  \<open>hashString\<close>: \<open>h = ((h * 33) ^ s.charCodeAt(i)) >>> 0\<close> from 5381, which is arithmetic
  on 32-bit words. Of \<open>undefined\<close> it throws a TypeError (\<open>s.length\<close>).
\<close>

definition hashString :: "string \<Rightarrow> string" where
  "hashString s = to_hex (uint (foldl (\<lambda>h c. (h * 33) XOR of_char c) (5381 :: 32 word) s))"

definition hashObject :: "(jsnum \<Rightarrow> string) \<Rightarrow> json \<Rightarrow> js_error + string" where
  "hashObject num_str obj =
     (case stableStringify num_str obj of None \<Rightarrow> Inl TypeError | Some s \<Rightarrow> Inr (hashString s))"

subsection \<open>Values that are equal up to the order of keys\<close>

text \<open>
  The sorted copy of a value, without the set \<open>seen\<close>; the addresses of a value; objects
  with distinct keys; and equality of two values up to the order of the keys of their objects
  (primitives equal, arrays element by element, objects key by key).
\<close>

lemma val_of_size_less [termination_simp]:
  "size (val_of kvs k) < Suc (size_list (\<lambda>x. Suc (size (snd x))) kvs)"
  by (induction kvs) (auto simp: val_of_def)

fun canon :: "json \<Rightarrow> sorted_json" where
  "canon JUndef = SUndef"
| "canon JNull = SNull"
| "canon (JBool b) = SBool b"
| "canon (JNum n) = SNum n"
| "canon (JStr s) = SStr s"
| "canon (JArr a xs) = SArr (map canon xs)"
| "canon (JObj a kvs) =
     SObj (foldl (\<lambda>out k. obj_set out k (canon (val_of kvs k))) [] (sort (map fst kvs)))"

fun addrs :: "json \<Rightarrow> nat list" where
  "addrs (JArr a xs) = a # concat (map addrs xs)"
| "addrs (JObj a kvs) = a # concat (map (\<lambda>p. addrs (snd p)) kvs)"
| "addrs v = []"

fun wf_json :: "json \<Rightarrow> bool" where
  "wf_json (JArr a xs) = (\<forall>x\<in>set xs. wf_json x)"
| "wf_json (JObj a kvs) = (distinct (map fst kvs) \<and> (\<forall>p\<in>set kvs. wf_json (snd p)))"
| "wf_json v = True"

inductive key_equiv :: "json \<Rightarrow> json \<Rightarrow> bool" where
  undef: "key_equiv JUndef JUndef"
| null: "key_equiv JNull JNull"
| bool: "key_equiv (JBool b) (JBool b)"
| num: "key_equiv (JNum n) (JNum n)"
| str: "key_equiv (JStr s) (JStr s)"
| arr: "list_all2 key_equiv xs ys \<Longrightarrow> key_equiv (JArr a xs) (JArr b ys)"
| obj: "distinct (map fst kvs) \<Longrightarrow> distinct (map fst kws) \<Longrightarrow>
        set (map fst kvs) = set (map fst kws) \<Longrightarrow>
        (\<forall>k\<in>set (map fst kvs). key_equiv (val_of kvs k) (val_of kws k)) \<Longrightarrow>
        key_equiv (JObj a kvs) (JObj b kws)"

section \<open>Verified properties: numeric coercion\<close>

text \<open>
  C8, as stated, fails: the fallback of \<open>toNumberStrict\<close> is returned as it is, and
  \<open>toNumber\<close> rejects a fallback that is not finite.
\<close>

theorem toNumber_after_strict_counterexample:
  "toNumber (VNum (toNumberStrict VNull NaN)) = None"
  by (simp add: toNumber_def toNumberStrict_def)

text \<open>
  C8 (amended): for every raw numeric value and every finite fallback, \<open>toNumber\<close> applied to
  the result of \<open>toNumberStrict\<close> is defined, and it is that result.
\<close>

theorem toNumber_after_strict_defined:
  "isFinite x \<Longrightarrow> toNumber (VNum (toNumberStrict v x)) = Some (toNumberStrict v x)"
  by (cases v) (auto simp: toNumber_def toNumberStrict_def Let_def)

theorem toNumber_after_strict_defined_witness:
  "isFinite (Fin 7) \<and>
   toNumber (VNum (toNumberStrict (VStr ''abc'') (Fin 7))) = Some (Fin 7) \<and>
   toNumber (VNum (toNumberStrict (VStr ''12.5'') (Fin 7))) = Some (Fin (25 / 2))"
proof -
  have a: "toNumberStrict (VStr ''abc'') (Fin 7) = Fin 7" by code_simp
  have b: "toNumberStrict (VStr ''12.5'') (Fin 7) = Fin (25 / 2)" by code_simp
  show ?thesis
    using toNumber_after_strict_defined[of "Fin 7" "VStr ''abc''"]
      toNumber_after_strict_defined[of "Fin 7" "VStr ''12.5''"]
    by (simp add: a b)
qed

lemma toNumberOrZero_string:
  "toNumberOrZero (VStr s) = toNumberStrict (VStr (strip_commas_spaces s)) (Fin 0)"
proof (cases "s = []")
  case True
  have "js_Number [] = Fin 0" by (simp add: js_Number_def trim_def)
  then show ?thesis using True
    by (simp add: toNumberOrZero_def toNumberStrict_def toNumber_def strip_commas_spaces_def)
next
  case False
  then show ?thesis
    by (simp add: toNumberOrZero_def toNumberStrict_def toNumber_def Let_def)
qed

text \<open>
  C10: \<open>toNumberOrZero\<close> on a string is the general coercer (fallback 0) applied to the string
  without its commas and spaces, so \<open>"1,234"\<close> is 1234 and \<open>" 5 "\<close> is 5; \<open>null\<close>,
  \<open>undefined\<close> and the empty string are 0; a number that is not finite is 0 and the result is
  always finite; \<open>toNumberStrict\<close> maps \<open>"1,234"\<close> to its fallback 0.
\<close>

theorem toNumberOrZero_strips:
  "toNumberOrZero (VStr s) = toNumberStrict (VStr (strip_commas_spaces s)) (Fin 0) \<and>
   strip_commas_spaces s = filter (\<lambda>c. c \<noteq> CHR '','' \<and> c \<noteq> CHR '' '') s \<and>
   toNumberOrZero (VStr ''1,234'') = Fin 1234 \<and>
   toNumberOrZero (VStr '' 5 '') = Fin 5 \<and>
   toNumberOrZero VNull = Fin 0 \<and>
   toNumberOrZero VUndef = Fin 0 \<and>
   toNumberOrZero (VStr []) = Fin 0 \<and>
   toNumberOrZero (VNum n) = (if isFinite n then n else Fin 0) \<and>
   isFinite (toNumberOrZero v) \<and>
   toNumberStrict (VStr ''1,234'') (Fin 0) = Fin 0"
proof -
  have a: "toNumberOrZero (VStr ''1,234'') = Fin 1234" by code_simp
  have b: "toNumberOrZero (VStr '' 5 '') = Fin 5" by code_simp
  have c: "toNumberStrict (VStr ''1,234'') (Fin 0) = Fin 0" by code_simp
  have d: "isFinite (toNumberOrZero v)"
    by (cases v) (auto simp: toNumberOrZero_def Let_def)
  have e: "toNumberOrZero (VNum n) = (if isFinite n then n else Fin 0)"
    by (simp add: toNumberOrZero_def)
  have f: "toNumberOrZero VNull = Fin 0" "toNumberOrZero VUndef = Fin 0" "toNumberOrZero (VStr []) = Fin 0"
    by (simp_all add: toNumberOrZero_def)
  show ?thesis
    by (intro conjI) (rule toNumberOrZero_string strip_commas_spaces_def a b c d e f)+
qed

theorem toNumberOrZero_strips_witness:
  "toNumberOrZero (VStr ''2, 500.5'') = Fin (5001 / 2) \<and>
   toNumberOrZero (VNum PosInf) = Fin 0"
proof -
  have a: "toNumberStrict (VStr ''2500.5'') (Fin 0) = Fin (5001 / 2)" by code_simp
  have b: "strip_commas_spaces ''2, 500.5'' = ''2500.5''" by code_simp
  note t = toNumberOrZero_strips[of "''2, 500.5''" PosInf VNull]
  have "toNumberOrZero (VStr ''2, 500.5'') = toNumberStrict (VStr (strip_commas_spaces ''2, 500.5'')) (Fin 0)"
    using t by (rule conjunct1)
  then have 1: "toNumberOrZero (VStr ''2, 500.5'') = Fin (5001 / 2)" by (simp only: a b)
  have "toNumberOrZero (VNum PosInf) = (if isFinite PosInf then PosInf else Fin 0)"
    using t by blast
  then have 2: "toNumberOrZero (VNum PosInf) = Fin 0" by simp
  show ?thesis using 1 2 by (rule conjI)
qed

section \<open>Verified properties: the exogenous matrix\<close>

lemma fill_column_prefix:
  "m \<le> length rows \<Longrightarrow>
   length (fill_column col c m rows) = length rows \<and>
   (\<forall>r<length rows. fill_column col c m rows ! r =
      (if r < m then (rows ! r)[c := toNumberOrZero (cell_at col r)] else rows ! r))"
proof (induction m)
  case 0
  then show ?case by (simp add: fill_column_def)
next
  case (Suc m)
  then have IH: "length (fill_column col c m rows) = length rows"
    "\<And>r. r < length rows \<Longrightarrow> fill_column col c m rows ! r =
      (if r < m then (rows ! r)[c := toNumberOrZero (cell_at col r)] else rows ! r)"
    by auto
  have step: "fill_column col c (Suc m) rows =
      (fill_column col c m rows)[m := (fill_column col c m rows ! m)[c := toNumberOrZero (cell_at col m)]]"
    by (simp add: fill_column_def)
  show ?case using Suc.prems IH by (auto simp: step nth_list_update)
qed

lemma exog_columns_prefix:
  fixes exog :: "string \<rightharpoonup> jsnum list" and columns :: "string list" and horizon :: nat
  defines "step \<equiv> (\<lambda>c rs. fill_column (column_of exog (columns ! c)) c horizon rs)"
  defines "rows0 \<equiv> replicate horizon (replicate (length columns) (Fin 0))"
  assumes "m \<le> length columns"
  shows "length (fold step [0..<m] rows0) = horizon \<and>
     (\<forall>r<horizon. length (fold step [0..<m] rows0 ! r) = length columns \<and>
        (\<forall>c<length columns. fold step [0..<m] rows0 ! r ! c =
           (if c < m then toNumberOrZero (cell_at (column_of exog (columns ! c)) r)
            else Fin 0)))"
  using assms(3)
proof (induction m)
  case 0
  then show ?case by (simp add: rows0_def)
next
  case (Suc m)
  let ?prev = "fold step [0..<m] rows0"
  have IH: "length ?prev = horizon"
    "\<And>r. r < horizon \<Longrightarrow> length (?prev ! r) = length columns"
    "\<And>r c. r < horizon \<Longrightarrow> c < length columns \<Longrightarrow> ?prev ! r ! c =
           (if c < m then toNumberOrZero (cell_at (column_of exog (columns ! c)) r)
            else Fin 0)"
    using Suc by auto
  have eq: "fold step [0..<Suc m] rows0 = step m ?prev" by simp
  have fc: "length (step m ?prev) = horizon"
    "\<And>r. r < horizon \<Longrightarrow> step m ?prev ! r =
        (?prev ! r)[m := toNumberOrZero (cell_at (column_of exog (columns ! m)) r)]"
    using fill_column_prefix[of horizon ?prev _ m] IH(1) by (auto simp: step_def)
  have len: "\<And>r. r < horizon \<Longrightarrow> length (step m ?prev ! r) = length columns"
    by (simp add: fc(2) IH(2))
  have ent: "\<And>r c. r < horizon \<Longrightarrow> c < length columns \<Longrightarrow> step m ?prev ! r ! c =
           (if c < Suc m then toNumberOrZero (cell_at (column_of exog (columns ! c)) r)
            else Fin 0)"
  proof -
    fix r c assume rc: "r < horizon" "c < length columns"
    show "step m ?prev ! r ! c =
           (if c < Suc m then toNumberOrZero (cell_at (column_of exog (columns ! c)) r)
            else Fin 0)"
    proof (cases "c = m")
      case True
      then show ?thesis using rc by (simp add: fc(2) IH(2))
    next
      case False
      then show ?thesis using rc by (simp add: fc(2) IH(2) IH(3) less_Suc_eq)
    qed
  qed
  show ?case unfolding eq using fc(1) len ent by blast
qed

lemma exogMapToMatrix_rows:
  "matrix_rows (exogMapToMatrix exog columns horizon) =
     map (\<lambda>r. map (\<lambda>name. toNumberOrZero (cell_at (column_of exog name) r)) columns) [0..<horizon]"
proof -
  let ?rows = "matrix_rows (exogMapToMatrix exog columns horizon)"
  have unfold: "?rows = fold (\<lambda>c rs. fill_column (column_of exog (columns ! c)) c horizon rs)
       [0..<length columns] (replicate horizon (replicate (length columns) (Fin 0)))"
    by (simp add: exogMapToMatrix_def Let_def)
  note pre = exog_columns_prefix[of "length columns" columns exog horizon, folded unfold, simplified]
  have len: "length ?rows = horizon" using pre by blast
  have rowlen: "\<And>r. r < horizon \<Longrightarrow> length (?rows ! r) = length columns" using pre by blast
  have ent: "\<And>r c. r < horizon \<Longrightarrow> c < length columns \<Longrightarrow>
      ?rows ! r ! c = toNumberOrZero (cell_at (column_of exog (columns ! c)) r)"
    using pre by blast
  have row: "\<And>r. r < horizon \<Longrightarrow> ?rows ! r =
       map (\<lambda>name. toNumberOrZero (cell_at (column_of exog name) r)) columns"
    by (rule nth_equalityI) (simp_all add: rowlen ent)
  show ?thesis
    by (rule nth_equalityI) (simp_all add: len row)
qed

lemma toNumberOrZero_number_cell:
  "toNumberOrZero (cell_at col r) = toNumberStrict (cell_at col r) (Fin 0)"
  by (simp add: toNumberOrZero_def toNumberStrict_def toNumber_def cell_at_def Let_def)

text \<open>
  C1: \<open>exogMapToMatrix\<close> returns the given columns in the given order, \<open>horizon\<close> rows of
  \<open>columns.length\<close> entries each, the entry at row \<open>r\<close> and column \<open>c\<close> being the coercion
  (fallback 0) of \<open>map[columns[c]][r]\<close>; keys of the map that are not declared columns have no
  effect, a declared column that the map lacks is zero, and the example of the specification
  evaluates as stated.
\<close>

theorem exogMapToMatrix_aligned:
  "matrix_columns (exogMapToMatrix exog columns horizon) = columns \<and>
   length (matrix_rows (exogMapToMatrix exog columns horizon)) = horizon \<and>
   (\<forall>r<horizon. length (matrix_rows (exogMapToMatrix exog columns horizon) ! r) = length columns) \<and>
   (\<forall>r<horizon. \<forall>c<length columns.
      matrix_rows (exogMapToMatrix exog columns horizon) ! r ! c
        = toNumberStrict (cell_at (column_of exog (columns ! c)) r) (Fin 0)) \<and>
   (\<forall>exog'. (\<forall>name\<in>set columns. exog' name = exog name) \<longrightarrow>
      exogMapToMatrix exog' columns horizon = exogMapToMatrix exog columns horizon) \<and>
   (\<forall>r<horizon. \<forall>c<length columns. exog (columns ! c) = None \<longrightarrow>
      matrix_rows (exogMapToMatrix exog columns horizon) ! r ! c = Fin 0) \<and>
   exogMapToMatrix [''ADR'' \<mapsto> [Fin 1, Fin 2, Fin 3]] [''ADR'', ''RoomNights''] 3
     = \<lparr>matrix_columns = [''ADR'', ''RoomNights''],
        matrix_rows = [[Fin 1, Fin 0], [Fin 2, Fin 0], [Fin 3, Fin 0]]\<rparr>"
proof -
  have cols: "\<And>e. matrix_columns (exogMapToMatrix e columns horizon) = columns"
    by (simp add: exogMapToMatrix_def Let_def)
  have entry: "\<forall>r<horizon. \<forall>c<length columns.
      matrix_rows (exogMapToMatrix exog columns horizon) ! r ! c
        = toNumberStrict (cell_at (column_of exog (columns ! c)) r) (Fin 0)"
    by (simp add: exogMapToMatrix_rows toNumberOrZero_number_cell)
  have indep: "\<forall>exog'. (\<forall>name\<in>set columns. exog' name = exog name) \<longrightarrow>
      exogMapToMatrix exog' columns horizon = exogMapToMatrix exog columns horizon"
  proof (intro allI impI)
    fix exog' :: "string \<rightharpoonup> jsnum list"
    assume same: "\<forall>name\<in>set columns. exog' name = exog name"
    then have "\<forall>name\<in>set columns. column_of exog' name = column_of exog name"
      by (simp add: column_of_def)
    then have "matrix_rows (exogMapToMatrix exog' columns horizon)
        = matrix_rows (exogMapToMatrix exog columns horizon)"
      by (simp add: exogMapToMatrix_rows cong: map_cong)
    then show "exogMapToMatrix exog' columns horizon = exogMapToMatrix exog columns horizon"
      using cols[of exog'] cols[of exog] by (simp add: exog_matrix.equality)
  qed
  have zero: "\<forall>r<horizon. \<forall>c<length columns. exog (columns ! c) = None \<longrightarrow>
      matrix_rows (exogMapToMatrix exog columns horizon) ! r ! c = Fin 0"
    by (simp add: exogMapToMatrix_rows column_of_def cell_at_def toNumberOrZero_def)
  have ex: "exogMapToMatrix [''ADR'' \<mapsto> [Fin 1, Fin 2, Fin 3]] [''ADR'', ''RoomNights''] 3
     = \<lparr>matrix_columns = [''ADR'', ''RoomNights''],
        matrix_rows = [[Fin 1, Fin 0], [Fin 2, Fin 0], [Fin 3, Fin 0]]\<rparr>"
    by code_simp
  have len: "length (matrix_rows (exogMapToMatrix exog columns horizon)) = horizon"
    by (simp add: exogMapToMatrix_rows)
  have rowlen: "\<forall>r<horizon. length (matrix_rows (exogMapToMatrix exog columns horizon) ! r) = length columns"
    by (simp add: exogMapToMatrix_rows)
  show ?thesis
    by (intro conjI) (rule cols len rowlen entry indep zero ex)+
qed

theorem exogMapToMatrix_aligned_witness:
  "(1::nat) < 3 \<and> (0::nat) < length [''ADR'', ''RoomNights''] \<and>
   matrix_rows (exogMapToMatrix [''ADR'' \<mapsto> [Fin 1, Fin 2, Fin 3]] [''ADR'', ''RoomNights''] 3) ! 1 ! 0
     = Fin 2 \<and>
   [''RoomNights'' \<mapsto> [Fin 7], ''ADR'' \<mapsto> [Fin 1, Fin 2, Fin 3]] ''ADR'' = [''ADR'' \<mapsto> [Fin 1, Fin 2, Fin 3]] ''ADR'' \<and>
   [''ADR'' \<mapsto> [Fin 1, Fin 2, Fin 3]] ''RoomNights'' = None \<and>
   matrix_rows (exogMapToMatrix [''ADR'' \<mapsto> [Fin 1, Fin 2, Fin 3]] [''ADR'', ''RoomNights''] 3) ! 1 ! 1
     = Fin 0"
  using exogMapToMatrix_aligned [of "[''ADR'' \<mapsto> [Fin 1, Fin 2, Fin 3]]" "[''ADR'', ''RoomNights'']" 3]
  by simp

section \<open>Verified properties: CSV text\<close>

text \<open>The branches of the scanner, one at a time.\<close>

lemma scan_escaped_quote:
  "st_inQuotes st \<Longrightarrow>
   scan d st (CHR 0x22 # CHR 0x22 # rest) = scan d (st\<lparr>st_cur := st_cur st @ [CHR 0x22]\<rparr>) rest"
  by simp

lemma scan_toggle_quote:
  "\<not> st_inQuotes st \<or> rest = [] \<or> hd rest \<noteq> CHR 0x22 \<Longrightarrow>
   scan d st (CHR 0x22 # rest) = scan d (st\<lparr>st_inQuotes := \<not> st_inQuotes st\<rparr>) rest"
  by auto

lemma scan_delimiter:
  "ch \<noteq> CHR 0x22 \<Longrightarrow> \<not> st_inQuotes st \<Longrightarrow>
   scan [ch] st (ch # rest) = scan [ch] (pushCell st) rest"
  by simp

lemma scan_line_feed:
  "d \<noteq> [CHR 0x0A] \<Longrightarrow> \<not> st_inQuotes st \<Longrightarrow>
   scan d st (CHR 0x0A # rest) = scan d (pushRow (pushCell st)) rest"
  by simp

lemma scan_carriage_return:
  "d \<noteq> [CHR 0x0D] \<Longrightarrow> \<not> st_inQuotes st \<Longrightarrow>
   scan d st (CHR 0x0D # rest)
     = scan d (pushRow (pushCell st)) (if rest \<noteq> [] \<and> hd rest = CHR 0x0A then tl rest else rest)"
  by simp

lemma scan_inside_quotes:
  "ch \<noteq> CHR 0x22 \<Longrightarrow> st_inQuotes st \<Longrightarrow>
   scan d st (ch # rest) = scan d (st\<lparr>st_cur := st_cur st @ [ch]\<rparr>) rest"
  by simp

lemma scan_ordinary:
  "ch \<noteq> CHR 0x22 \<Longrightarrow> [ch] \<noteq> d \<Longrightarrow> ch \<noteq> CHR 0x0A \<Longrightarrow> ch \<noteq> CHR 0x0D \<Longrightarrow>
   scan d st (ch # rest) = scan d (st\<lparr>st_cur := st_cur st @ [ch]\<rparr>) rest"
  by simp

declare scan.simps(2) [simp del]

lemma scan_plain:
  "\<not> st_inQuotes st \<Longrightarrow> plain_text dc s \<Longrightarrow>
   scan [dc] st (s @ rest) = scan [dc] (st\<lparr>st_cur := st_cur st @ s\<rparr>) rest"
proof (induction s arbitrary: st)
  case Nil
  then show ?case by simp
next
  case (Cons c s)
  from Cons.prems have c: "c \<noteq> CHR 0x22" "c \<noteq> dc" "c \<noteq> CHR 0x0A" "c \<noteq> CHR 0x0D" and s: "plain_text dc s"
    by (simp_all add: plain_text_def)
  have "scan [dc] st ((c # s) @ rest) = scan [dc] (st\<lparr>st_cur := st_cur st @ [c]\<rparr>) (s @ rest)"
    using c by (simp add: scan_ordinary)
  also have "\<dots> = scan [dc] (st\<lparr>st_cur := st_cur st @ [c]\<rparr>\<lparr>st_cur := st_cur (st\<lparr>st_cur := st_cur st @ [c]\<rparr>) @ s\<rparr>) rest"
    using Cons.prems(1) by (intro Cons.IH[OF _ s]) simp
  finally show ?case by simp
qed

lemma scan_quoted:
  "st_inQuotes st \<Longrightarrow> rest = [] \<or> hd rest \<noteq> CHR 0x22 \<Longrightarrow>
   scan d st (double_quotes s @ CHR 0x22 # rest)
     = scan d (st\<lparr>st_cur := st_cur st @ s, st_inQuotes := False\<rparr>) rest"
proof (induction s arbitrary: st)
  case Nil
  then show ?case by (simp add: scan_toggle_quote)
next
  case (Cons c s)
  show ?case
  proof (cases "c = CHR 0x22")
    case True
    have "scan d st (double_quotes (c # s) @ CHR 0x22 # rest)
        = scan d (st\<lparr>st_cur := st_cur st @ [CHR 0x22]\<rparr>) (double_quotes s @ CHR 0x22 # rest)"
      using True Cons.prems(1) by (simp add: scan_escaped_quote)
    also have "\<dots> = scan d (st\<lparr>st_cur := st_cur st @ [CHR 0x22]\<rparr>
          \<lparr>st_cur := st_cur (st\<lparr>st_cur := st_cur st @ [CHR 0x22]\<rparr>) @ s, st_inQuotes := False\<rparr>) rest"
      using Cons.prems by (intro Cons.IH) simp_all
    finally show ?thesis using True by simp
  next
    case False
    have "scan d st (double_quotes (c # s) @ CHR 0x22 # rest)
        = scan d (st\<lparr>st_cur := st_cur st @ [c]\<rparr>) (double_quotes s @ CHR 0x22 # rest)"
      using False Cons.prems(1) by (simp add: scan_inside_quotes)
    also have "\<dots> = scan d (st\<lparr>st_cur := st_cur st @ [c]\<rparr>
          \<lparr>st_cur := st_cur (st\<lparr>st_cur := st_cur st @ [c]\<rparr>) @ s, st_inQuotes := False\<rparr>) rest"
      using Cons.prems by (intro Cons.IH) simp_all
    finally show ?thesis by simp
  qed
qed

lemma scan_field:
  assumes "encodes dc t s" "\<not> st_inQuotes st" "rest = [] \<or> hd rest \<noteq> CHR 0x22"
  shows "scan [dc] st (t @ rest) = scan [dc] (st\<lparr>st_cur := st_cur st @ s\<rparr>) rest"
proof (cases "t = s \<and> plain_text dc s")
  case True
  then show ?thesis using scan_plain[OF assms(2), of dc s rest] by simp
next
  case False
  then have t: "t = [CHR 0x22] @ double_quotes s @ [CHR 0x22]" using assms(1) by (auto simp: encodes_def)
  have "scan [dc] st (t @ rest) = scan [dc] (st\<lparr>st_inQuotes := True\<rparr>) (double_quotes s @ CHR 0x22 # rest)"
    using assms(2) by (simp add: t scan_toggle_quote)
  also have "\<dots> = scan [dc] (st\<lparr>st_inQuotes := True\<rparr>\<lparr>st_cur := st_cur (st\<lparr>st_inQuotes := True\<rparr>) @ s,
       st_inQuotes := False\<rparr>) rest"
    using assms(3) by (intro scan_quoted) simp_all
  also have "st\<lparr>st_inQuotes := True\<rparr>\<lparr>st_cur := st_cur (st\<lparr>st_inQuotes := True\<rparr>) @ s,
       st_inQuotes := False\<rparr> = st\<lparr>st_cur := st_cur st @ s\<rparr>"
    using assms(2) by simp
  finally show ?thesis .
qed

text \<open>One line: the cells but the last one go to the current row, the last one stays in the current cell.\<close>

lemma scan_line:
  assumes "list_all2 (encodes dc) ts cells" "ts \<noteq> []" "dc \<noteq> CHR 0x22"
    "\<not> st_inQuotes st" "st_cur st = []" "rest = [] \<or> hd rest \<noteq> CHR 0x22"
  shows "scan [dc] st (join [dc] ts @ rest)
         = scan [dc] (st\<lparr>st_row := st_row st @ butlast cells, st_cur := last cells\<rparr>) rest"
  using assms(1,2,4,5)
proof (induction ts arbitrary: cells st rule: induct_list012)
  case 1
  then show ?case by simp
next
  case (2 t)
  then obtain s where cells: "cells = [s]" and enc: "encodes dc t s"
    by (auto simp: list_all2_Cons1)
  show ?case using scan_field[OF enc "2.prems"(3) assms(6)] "2.prems"(4) by (simp add: cells)
next
  case (3 t u ts)
  then obtain s cells' where cells: "cells = s # cells'" and enc: "encodes dc t s"
      and rest': "list_all2 (encodes dc) (u # ts) cells'"
    by (auto simp: list_all2_Cons1)
  have ne: "cells' \<noteq> []" using rest' by auto
  let ?st1 = "st\<lparr>st_cur := st_cur st @ s\<rparr>"
  let ?st2 = "pushCell ?st1"
  have "scan [dc] st (join [dc] (t # u # ts) @ rest)
      = scan [dc] st (t @ (dc # join [dc] (u # ts) @ rest))" by simp
  also have "\<dots> = scan [dc] ?st1 (dc # join [dc] (u # ts) @ rest)"
    using assms(3) by (intro scan_field[OF enc "3.prems"(3)]) simp
  also have "\<dots> = scan [dc] ?st2 (join [dc] (u # ts) @ rest)"
    using assms(3) "3.prems"(3) by (simp add: scan_delimiter)
  also have "\<dots> = scan [dc] (?st2\<lparr>st_row := st_row ?st2 @ butlast cells', st_cur := last cells'\<rparr>) rest"
    using "3.prems"(3) by (intro "3.IH"(2)[OF rest']) (simp_all add: pushCell_def)
  also have "?st2\<lparr>st_row := st_row ?st2 @ butlast cells', st_cur := last cells'\<rparr>
      = st\<lparr>st_row := st_row st @ butlast cells, st_cur := last cells\<rparr>"
    using "3.prems"(3,4) ne by (simp add: pushCell_def cells)
  finally show ?case .
qed

lemma join_lines_Cons2: "join d (x # y # xs) = x @ d @ join d (y # xs)"
  by simp

text \<open>Several lines: all lines but the last one are finished rows.\<close>

lemma scan_lines:
  assumes "dc \<noteq> CHR 0x22" "dc \<noteq> CHR 0x0A"
  shows "list_all2 (list_all2 (encodes dc)) tss ls \<Longrightarrow> tss \<noteq> [] \<Longrightarrow> [] \<notin> set tss \<Longrightarrow>
    \<not> st_inQuotes st \<Longrightarrow> st_cur st = [] \<Longrightarrow> st_row st = [] \<Longrightarrow>
    scan [dc] st (join [CHR 0x0A] (map (join [dc]) tss))
      = st\<lparr>st_rows := st_rows st @ butlast ls, st_row := butlast (last ls), st_cur := last (last ls)\<rparr>"
proof (induction tss arbitrary: ls st rule: induct_list012)
  case 1
  then show ?case by simp
next
  case (2 ts)
  then obtain cells where ls: "ls = [cells]" and enc: "list_all2 (encodes dc) ts cells"
    by (auto simp: list_all2_Cons1)
  have ne: "ts \<noteq> []" using "2.prems"(3) by auto
  have "scan [dc] st (join [dc] ts @ []) =
      scan [dc] (st\<lparr>st_row := st_row st @ butlast cells, st_cur := last cells\<rparr>) []"
    by (rule scan_line[OF enc ne assms(1) "2.prems"(4,5)]) simp
  then show ?case using "2.prems"(6) by (simp add: ls)
next
  case (3 ts us tss)
  then obtain cells ls' where ls: "ls = cells # ls'" and enc: "list_all2 (encodes dc) ts cells"
      and rest: "list_all2 (list_all2 (encodes dc)) (us # tss) ls'"
    by (auto simp: list_all2_Cons1)
  have ne: "ts \<noteq> []" and ne': "[] \<notin> set (us # tss)" using "3.prems"(3) by auto
  have ls'ne: "ls' \<noteq> []" using rest by auto
  have cne: "cells \<noteq> []" using enc ne by auto
  let ?tail = "join [CHR 0x0A] (map (join [dc]) (us # tss))"
  let ?st1 = "st\<lparr>st_row := st_row st @ butlast cells, st_cur := last cells\<rparr>"
  let ?st2 = "pushRow (pushCell ?st1)"
  have st2: "?st2 = st\<lparr>st_rows := st_rows st @ [cells], st_row := [], st_cur := []\<rparr>"
    using "3.prems"(4,6) cne by (simp add: pushRow_def pushCell_def)
  have "scan [dc] st (join [CHR 0x0A] (map (join [dc]) (ts # us # tss)))
      = scan [dc] st (join [dc] ts @ (CHR 0x0A # ?tail))"
    by simp
  also have "\<dots> = scan [dc] ?st1 (CHR 0x0A # ?tail)"
    by (rule scan_line[OF enc ne assms(1) "3.prems"(4,5)]) simp
  also have "\<dots> = scan [dc] ?st2 ?tail"
    using assms(2) "3.prems"(4) by (intro scan_line_feed) simp_all
  also have "\<dots> = ?st2\<lparr>st_rows := st_rows ?st2 @ butlast ls', st_row := butlast (last ls'),
        st_cur := last (last ls')\<rparr>"
    using "3.prems"(4) by (intro "3.IH"(2)[OF rest _ ne']) (simp_all add: st2)
  also have "\<dots> = st\<lparr>st_rows := st_rows st @ butlast ls, st_row := butlast (last ls),
        st_cur := last (last ls)\<rparr>"
    using ls'ne by (simp add: st2 ls)
  finally show ?case .
qed

lemma drop_empty_trailing_keep:
  "rows \<noteq> [] \<Longrightarrow> \<not> list_all (\<lambda>c. c = []) (last rows) \<Longrightarrow> drop_empty_trailing rows = rows"
  by (cases rows rule: rev_cases) (simp_all add: drop_empty_trailing_def)

text \<open>The result of \<open>parseCSV\<close> on well-formed lines whose last line has a non-empty cell.\<close>

lemma parseCSV_lines:
  assumes "dc \<noteq> CHR 0x22" "dc \<noteq> CHR 0x0A"
    and enc: "list_all2 (list_all2 (encodes dc)) tss ls"
    and ne: "tss \<noteq> []" "[] \<notin> set tss"
    and last_ne: "\<not> list_all (\<lambda>c. c = []) (last ls)"
  shows "parseCSV (join [CHR 0x0A] (map (join [dc]) tss)) [dc] = (hd ls, tl ls)"
proof -
  let ?st0 = "\<lparr>st_rows = [], st_row = [], st_cur = [], st_inQuotes = False\<rparr>"
  have lsne: "ls \<noteq> []" using enc ne(1) by auto
  have "[] \<notin> set ls"
    using enc ne(2) by (auto simp: list_all2_conv_all_nth in_set_conv_nth)
  then have lne: "last ls \<noteq> []" using lsne last_in_set by metis
  have sc: "scan [dc] ?st0 (join [CHR 0x0A] (map (join [dc]) tss))
      = ?st0\<lparr>st_rows := st_rows ?st0 @ butlast ls, st_row := butlast (last ls), st_cur := last (last ls)\<rparr>"
    by (rule scan_lines[OF assms(1,2) enc ne]) simp_all
  have "parseCSV (join [CHR 0x0A] (map (join [dc]) tss)) [dc] =
     (let rows = drop_empty_trailing (butlast ls @ [butlast (last ls) @ [last (last ls)]])
      in if rows = [] then ([], []) else (hd rows, tl rows))"
    unfolding parseCSV_def sc by (simp add: pushCell_def pushRow_def Let_def)
  also have "butlast ls @ [butlast (last ls) @ [last (last ls)]] = ls"
    using lsne lne by simp
  also have "drop_empty_trailing ls = ls"
    using lsne last_ne by (rule drop_empty_trailing_keep)
  finally show ?thesis using lsne by (simp add: Let_def)
qed

lemma esc_cell_text: "esc to_str v = esc_text (cell_text to_str v)"
  by (simp add: esc_def cell_text_def esc_text_def)

lemma esc_text_encodes: "cell_ok s \<Longrightarrow> encodes (CHR '','') (esc_text s) s"
  by (auto simp: encodes_def esc_text_def cell_ok_def plain_text_def list_all_iff)

lemma plain_encodes: "plain_text dc s \<Longrightarrow> encodes dc s s"
  by (simp add: encodes_def)

lemma remdups_drop_later: "k \<in> set ys \<Longrightarrow> remdups (xs @ k # ys) = remdups (xs @ ys)"
  by (induction xs) auto

lemma fold_add_key:
  "distinct hs \<Longrightarrow> fold add_key ks hs = rev (remdups (rev (hs @ ks)))"
proof (induction ks arbitrary: hs)
  case Nil
  then show ?case by (simp add: distinct_remdups_id)
next
  case (Cons k ks)
  show ?case
  proof (cases "k \<in> set hs")
    case True
    then have "add_key k hs = hs" by (simp add: add_key_def)
    then have "fold add_key (k # ks) hs = fold add_key ks hs" by simp
    also have "\<dots> = rev (remdups (rev (hs @ ks)))" by (rule Cons.IH[OF Cons.prems])
    finally have "fold add_key (k # ks) hs = rev (remdups (rev (hs @ ks)))" .
    also have "remdups (rev (hs @ ks)) = remdups (rev (hs @ k # ks))"
      using True remdups_drop_later[of k "rev hs" "rev ks"] by simp
    finally show ?thesis .
  next
    case False
    then have "distinct (hs @ [k])" using Cons.prems by simp
    have "add_key k hs = hs @ [k]" using False by (simp add: add_key_def)
    then have "fold add_key (k # ks) hs = fold add_key ks (hs @ [k])" by simp
    also have "\<dots> = rev (remdups (rev ((hs @ [k]) @ ks)))" by (rule Cons.IH[OF \<open>distinct (hs @ [k])\<close>])
    finally show ?thesis by simp
  qed
qed

lemma collect_headers_first_seen:
  "collect_headers rows = rev (remdups (rev (concat (map (map fst) rows))))"
proof -
  have "distinct hs \<Longrightarrow> fold (\<lambda>r hs. fold add_key (map fst r) hs) rows hs
      = rev (remdups (rev (hs @ concat (map (map fst) rows))))" for hs
  proof (induction rows arbitrary: hs)
    case Nil
    then show ?case by (simp add: distinct_remdups_id)
  next
    case (Cons r rows)
    have d: "distinct (fold add_key (map fst r) hs)"
      using Cons.prems by (simp add: fold_add_key)
    have "remdups (rev (rev (remdups (rev (hs @ map fst r))) @ concat (map (map fst) rows)))
        = remdups (rev (hs @ map fst r @ concat (map (map fst) rows)))"
      by (simp add: remdups_append2)
    then show ?case using Cons.IH[OF d] Cons.prems by (simp add: fold_add_key)
  qed
  from this[of "[]"] show ?thesis by (simp add: collect_headers_def)
qed

lemma parseCSV_final:
  "parseCSV text d =
     (let st = scan d \<lparr>st_rows = [], st_row = [], st_cur = [], st_inQuotes = False\<rparr> text;
          rows = drop_empty_trailing (st_rows st @ [st_row (pushCell st)])
      in if rows = [] then ([], []) else (hd rows, tl rows))"
  by (simp add: parseCSV_def Let_def pushCell_def pushRow_def)

lemma scan_header_row:
  assumes "dc \<noteq> CHR 0x22" "dc \<noteq> CHR 0x0A" "dc \<noteq> CHR 0x0D" "cells \<noteq> []"
    "\<forall>c\<in>set cells. plain_text dc c"
    "eol \<in> {[], [CHR 0x0A], [CHR 0x0D], [CHR 0x0D, CHR 0x0A]}"
  shows "scan [dc] \<lparr>st_rows = [], st_row = [], st_cur = [], st_inQuotes = False\<rparr> (join [dc] cells @ eol)
     = (if eol = [] then \<lparr>st_rows = [], st_row = butlast cells, st_cur = last cells, st_inQuotes = False\<rparr>
        else \<lparr>st_rows = [cells], st_row = [], st_cur = [], st_inQuotes = False\<rparr>)"
proof -
  let ?st0 = "\<lparr>st_rows = [], st_row = [], st_cur = [], st_inQuotes = False\<rparr>"
  let ?st1 = "\<lparr>st_rows = [], st_row = butlast cells, st_cur = last cells, st_inQuotes = False\<rparr>"
  have enc: "list_all2 (encodes dc) cells cells"
    using assms(5) by (simp add: list_all2_same plain_encodes)
  have "eol = [] \<or> hd eol \<noteq> CHR 0x22" using assms(6) by auto
  then have "scan [dc] ?st0 (join [dc] cells @ eol)
      = scan [dc] (?st0\<lparr>st_row := st_row ?st0 @ butlast cells, st_cur := last cells\<rparr>) eol"
    by (intro scan_line[OF enc assms(4) assms(1)]) simp_all
  then have 1: "scan [dc] ?st0 (join [dc] cells @ eol) = scan [dc] ?st1 eol" by simp
  have push: "pushRow (pushCell ?st1) = \<lparr>st_rows = [cells], st_row = [], st_cur = [], st_inQuotes = False\<rparr>"
    using assms(4) by (simp add: pushRow_def pushCell_def)
  have lf: "scan [dc] ?st1 [CHR 0x0A] = pushRow (pushCell ?st1)"
    using assms(2) by (simp add: scan_line_feed)
  have cr: "scan [dc] ?st1 [CHR 0x0D] = pushRow (pushCell ?st1)"
    using assms(3) by (simp add: scan_carriage_return)
  have crlf: "scan [dc] ?st1 [CHR 0x0D, CHR 0x0A] = pushRow (pushCell ?st1)"
    using assms(3) by (simp add: scan_carriage_return)
  show ?thesis using assms(6) 1 lf cr crlf push by auto
qed

text \<open>
  C5, as stated, fails for a header row with a non-empty cell: the row is returned as the
  headers.
\<close>

theorem parseCSV_header_only_counterexample:
  "parseCSV ''a,b'' '','' = ([''a'', ''b''], [])"
  by code_simp

text \<open>
  C5 (amended): the empty text gives no headers and no rows. A text that is a single row of
  plain cells, with or without a line terminator, gives no rows; its headers are the cells of
  the row, unless all of them are empty, in which case there are no headers.
\<close>

theorem parseCSV_header_only:
  assumes "dc \<noteq> CHR 0x22" "dc \<noteq> CHR 0x0A" "dc \<noteq> CHR 0x0D" "cells \<noteq> []"
    "\<forall>c\<in>set cells. plain_text dc c"
    "eol \<in> {[], [CHR 0x0A], [CHR 0x0D], [CHR 0x0D, CHR 0x0A]}"
  shows "parseCSV [] d = ([], []) \<and>
         parseCSV (join [dc] cells @ eol) [dc]
           = (if list_all (\<lambda>c. c = []) cells then ([], []) else (cells, []))"
proof -
  have empty: "parseCSV [] d = ([], [])"
    by (simp add: parseCSV_final Let_def pushCell_def drop_empty_trailing_def)
  have bl: "butlast cells @ [last cells] = cells" using assms(4) by simp
  let ?st = "scan [dc] \<lparr>st_rows = [], st_row = [], st_cur = [], st_inQuotes = False\<rparr>
      (join [dc] cells @ eol)"
  have rows: "st_rows ?st @ [st_row (pushCell ?st)] = (if eol = [] then [cells] else [cells, [[]]])"
    unfolding scan_header_row[OF assms] by (simp add: pushCell_def bl)
  have drop: "drop_empty_trailing (if eol = [] then [cells] else [cells, [[]]])
      = (if list_all (\<lambda>c. c = []) cells then [] else [cells])"
    by (simp add: drop_empty_trailing_def)
  have row: "parseCSV (join [dc] cells @ eol) [dc]
           = (if list_all (\<lambda>c. c = []) cells then ([], []) else (cells, []))"
    unfolding parseCSV_final Let_def rows drop by simp
  show ?thesis using empty row by (rule conjI)
qed

theorem parseCSV_header_only_witness:
  "parseCSV (''a,b'' @ [CHR 0x0D, CHR 0x0A]) '','' = ([''a'', ''b''], []) \<and>
   parseCSV '',,'' '','' = ([], [])"
proof -
  have p: "\<forall>c\<in>set [''a'', ''b'']. plain_text (CHR '','') c" by (simp add: plain_text_def)
  have q: "\<forall>c\<in>set [[], [], []]. plain_text (CHR '','') c" by (simp add: plain_text_def)
  have 1: "parseCSV (''a,b'' @ [CHR 0x0D, CHR 0x0A]) '','' = ([''a'', ''b''], [])"
    using parseCSV_header_only[of "CHR '',''" "[''a'', ''b'']" "[CHR 0x0D, CHR 0x0A]", OF _ _ _ _ p]
    by simp
  have 2: "parseCSV '',,'' '','' = ([], [])"
    using parseCSV_header_only[of "CHR '',''" "[[], [], []]" "[]", OF _ _ _ _ q]
    by simp
  show ?thesis using 1 2 by (rule conjI)
qed

text \<open>
  C3, as stated, fails where the last record has only empty cells: the parser removes
  trailing rows of empty cells, so the record is lost.
\<close>

theorem csv_round_trip_counterexample:
  "toCSV (\<lambda>n. []) [[(''a'', VStr ''1'')], [(''a'', VStr [])]] '','' = ''a'' @ [CHR 0x0A] @ ''1'' @ [CHR 0x0A] \<and>
   parseCSV (toCSV (\<lambda>n. []) [[(''a'', VStr ''1'')], [(''a'', VStr [])]] '','') '','' = ([''a''], [[''1'']])"
  by code_simp

text \<open>
  C3 (amended): for a non-empty rectangular list of records (every record has every header as
  an own key) whose keys are plain (no double quote, comma, line feed or carriage return),
  whose cells may contain commas, double quotes and line feeds (a carriage return only in a
  cell that also has one of these), and whose last record has a non-empty cell,
  \<open>parseCSV(toCSV(rows))\<close> gives the headers of \<open>toCSV\<close> (all keys, each at its first
  occurrence) and, for every record, the texts of its own cells under these headers (the empty
  string for \<open>null\<close> and \<open>undefined\<close>).
\<close>

theorem csv_round_trip:
  assumes rows: "rows \<noteq> []"
    and rect: "\<forall>r\<in>set rows. \<forall>h\<in>set (collect_headers rows). h \<in> fst ` set r"
    and keys: "\<forall>h\<in>set (collect_headers rows). plain_text (CHR '','') h"
    and cells: "\<forall>r\<in>set rows. \<forall>h\<in>set (collect_headers rows). cell_ok (cell_text to_str (get_field r h))"
    and last_row: "\<exists>h\<in>set (collect_headers rows). cell_text to_str (get_field (last rows) h) \<noteq> []"
  shows "parseCSV (toCSV to_str rows '','') '','' =
           (collect_headers rows,
            map (\<lambda>r. map (\<lambda>h. cell_text to_str (get_field r h)) (collect_headers rows)) rows) \<and>
         collect_headers rows = rev (remdups (rev (concat (map (map fst) rows)))) \<and>
         (\<forall>r\<in>set rows. \<forall>h\<in>set (collect_headers rows). \<exists>v. (h, v) \<in> set r \<and> get_field r h = Own v)"
proof -
  let ?hs = "collect_headers rows"
  let ?tss = "?hs # map (\<lambda>r. map (\<lambda>h. esc to_str (get_field r h)) ?hs) rows"
  let ?ls = "?hs # map (\<lambda>r. map (\<lambda>h. cell_text to_str (get_field r h)) ?hs) rows"
  have hne: "?hs \<noteq> []" using last_row by auto
  have csv: "toCSV to_str rows '','' = join [CHR 0x0A] (map (join [CHR '','']) ?tss)"
    using rows by (simp add: toCSV_def Let_def comp_def)
  have enc_h: "list_all2 (encodes (CHR '','')) ?hs ?hs"
    using keys by (simp add: list_all2_same plain_encodes)
  have enc_r: "list_all2 (encodes (CHR '','')) (map (\<lambda>h. esc to_str (get_field r h)) ?hs)
       (map (\<lambda>h. cell_text to_str (get_field r h)) ?hs)" if "r \<in> set rows" for r
    using cells that by (simp add: list_all2_map1 list_all2_map2 list_all2_same esc_cell_text esc_text_encodes)
  have enc: "list_all2 (list_all2 (encodes (CHR '',''))) ?tss ?ls"
    using enc_h enc_r by (simp add: list_all2_map1 list_all2_map2 list_all2_same)
  have tne: "?tss \<noteq> []" "[] \<notin> set ?tss" using hne by auto
  have "last ?ls = map (\<lambda>h. cell_text to_str (get_field (last rows) h)) ?hs"
    using rows by (simp add: last_map)
  then have last_ne: "\<not> list_all (\<lambda>c. c = []) (last ?ls)"
    using last_row by (auto simp: list_all_iff)
  have "parseCSV (join [CHR 0x0A] (map (join [CHR '','']) ?tss)) [CHR '',''] = (hd ?ls, tl ?ls)"
    by (rule parseCSV_lines[OF _ _ enc tne last_ne]) simp_all
  then have "parseCSV (toCSV to_str rows '','') '','' =
           (?hs, map (\<lambda>r. map (\<lambda>h. cell_text to_str (get_field r h)) ?hs) rows)"
    by (simp add: csv)
  moreover have "\<forall>r\<in>set rows. \<forall>h\<in>set (collect_headers rows). \<exists>v. (h, v) \<in> set r \<and> get_field r h = Own v"
  proof (intro ballI)
    fix r h assume "r \<in> set rows" "h \<in> set (collect_headers rows)"
    then have "h \<in> fst ` set r" using rect by blast
    then obtain v where v: "map_of r h = Some v"
      by (metis map_of_eq_None_iff not_Some_eq)
    then have "(h, v) \<in> set r" by (rule map_of_SomeD)
    then show "\<exists>v. (h, v) \<in> set r \<and> get_field r h = Own v"
      using v by (auto simp: get_field_def)
  qed
  ultimately show ?thesis using collect_headers_first_seen by blast
qed

theorem csv_round_trip_witness:
  "parseCSV (toCSV (\<lambda>n. [])
       [[(''id'', VStr ''x,y''), (''note'', VStr (''say '' @ [CHR 0x22] @ ''hi'' @ [CHR 0x22]))],
        [(''id'', VStr (''l1'' @ [CHR 0x0D, CHR 0x0A] @ ''l2'')), (''note'', VStr [])]] '','') '',''
   = ([''id'', ''note''],
      [[''x,y'', ''say '' @ [CHR 0x22] @ ''hi'' @ [CHR 0x22]],
       [''l1'' @ [CHR 0x0D, CHR 0x0A] @ ''l2'', []]])"
proof -
  let ?rows = "[[(''id'', VStr ''x,y''), (''note'', VStr (''say '' @ [CHR 0x22] @ ''hi'' @ [CHR 0x22]))],
        [(''id'', VStr (''l1'' @ [CHR 0x0D, CHR 0x0A] @ ''l2'')), (''note'', VStr [])]]"
  have hs: "collect_headers ?rows = [''id'', ''note'']" by code_simp
  have 1: "?rows \<noteq> []" by simp
  have r: "\<forall>r\<in>set ?rows. \<forall>h\<in>set (collect_headers ?rows). h \<in> fst ` set r"
    unfolding hs by simp
  have 2: "\<forall>h\<in>set (collect_headers ?rows). plain_text (CHR '','') h"
    unfolding hs by (simp add: plain_text_def)
  have 3: "\<forall>r\<in>set ?rows. \<forall>h\<in>set (collect_headers ?rows). cell_ok (cell_text (\<lambda>n. []) (get_field r h))"
    unfolding hs by (simp add: cell_ok_def cell_text_def js_String_def get_field_def)
  have 4: "\<exists>h\<in>set (collect_headers ?rows). cell_text (\<lambda>n. []) (get_field (last ?rows) h) \<noteq> []"
    unfolding hs by (simp add: cell_text_def js_String_def get_field_def)
  have "parseCSV (toCSV (\<lambda>n. []) ?rows '','') '','' =
           (collect_headers ?rows,
            map (\<lambda>r. map (\<lambda>h. cell_text (\<lambda>n. []) (get_field r h)) (collect_headers ?rows)) ?rows)"
    using csv_round_trip[OF 1 r 2 3 4] by (rule conjunct1)
  then show ?thesis
    unfolding hs by (simp add: cell_text_def js_String_def get_field_def)
qed

text \<open>
  C4 at the delimiter \<open>;\<close>: \<open>esc\<close> tests for a comma, not for the delimiter, so the cell
  \<open>x;y\<close> is written without quotes and is read back as two cells.
\<close>

theorem toCSV_delimiter_not_quoted:
  "toCSV (\<lambda>n. []) [[(''a'', VStr ''x;y'')]] '';'' = ''a'' @ [CHR 0x0A] @ ''x;y'' \<and>
   parseCSV (toCSV (\<lambda>n. []) [[(''a'', VStr ''x;y'')]] '';'') '';'' = ([''a''], [[''x'', ''y'']])"
  by code_simp

section \<open>Verified properties: request defaults\<close>

lemma nullish_or_case: "nullish_or x d = (case x of Val v \<Rightarrow> v | _ \<Rightarrow> d)"
  by (cases x) simp_all

text \<open>
  C7: without an \<open>exog\<close> field (absent or \<open>null\<close>) the result is the Auto body with
  \<open>use_auto_exog = true\<close>, the caller's \<open>horizon\<close>, \<open>frequency\<close>, \<open>alpha\<close> (when it is a
  number), \<open>exog_strategy\<close>, \<open>clip_non_negative\<close> and \<open>floor\<close> where present, and the
  defaults 14, \<open>"D"\<close>, 0.05, \<open>"smart"\<close>, \<open>true\<close> and 0 otherwise; an input that carries
  exogenous data is returned unchanged.
\<close>

theorem withPredictDefaults_auto:
  "((req_exog input = Undefined \<or> req_exog input = Null) \<longrightarrow>
      withPredictDefaults input =
        \<lparr>req_horizon = Val (case req_horizon input of Val h \<Rightarrow> h | _ \<Rightarrow> Fin 14),
         req_frequency = Val (case req_frequency input of Val f \<Rightarrow> f | _ \<Rightarrow> ''D''),
         req_alpha = VNum (case req_alpha input of VNum a \<Rightarrow> a | _ \<Rightarrow> Fin (5 / 100)),
         req_flags = Val
           \<lparr>use_auto_exog = Val True,
            exog_strategy = Val (case req_flags input of
                                   Val fl \<Rightarrow> (case exog_strategy fl of Val s \<Rightarrow> s | _ \<Rightarrow> ''smart'')
                                 | _ \<Rightarrow> ''smart''),
            clip_non_negative = Val (case req_flags input of
                                       Val fl \<Rightarrow> (case clip_non_negative fl of Val b \<Rightarrow> b | _ \<Rightarrow> True)
                                     | _ \<Rightarrow> True),
            floor_value = Val (case req_flags input of
                                 Val fl \<Rightarrow> (case floor_value fl of Val x \<Rightarrow> x | _ \<Rightarrow> Fin 0)
                               | _ \<Rightarrow> Fin 0)\<rparr>,
         req_exog = Undefined\<rparr>) \<and>
   (\<forall>payload. req_exog input = Val payload \<longrightarrow> withPredictDefaults input = input)"
proof -
  have alpha: "(case req_alpha input of VNum a \<Rightarrow> a | _ \<Rightarrow> alpha_default DEFAULTS)
      = (case req_alpha input of VNum a \<Rightarrow> a | _ \<Rightarrow> Fin (5 / 100))"
    by (cases "req_alpha input") (simp_all add: DEFAULTS_def)
  have fl: "\<And>(f :: predict_flags \<Rightarrow> 'b opt) d. flag_or (req_flags input) f d =
      (case req_flags input of Val fl \<Rightarrow> (case f fl of Val s \<Rightarrow> s | _ \<Rightarrow> d) | _ \<Rightarrow> d)"
    by (cases "req_flags input") (simp_all add: flag_or_def nullish_or_case)
  have d: "frequency_default DEFAULTS = ''D''" "horizon_default DEFAULTS = Fin 14"
    "exogStrategy_default DEFAULTS = ''smart''" "clipNonNegative_default DEFAULTS = True"
    "floor_default DEFAULTS = Fin 0"
    by (simp_all add: DEFAULTS_def)
  have auto_body: "(req_exog input = Undefined \<or> req_exog input = Null) \<longrightarrow>
      withPredictDefaults input =
        \<lparr>req_horizon = Val (case req_horizon input of Val h \<Rightarrow> h | _ \<Rightarrow> Fin 14),
         req_frequency = Val (case req_frequency input of Val f \<Rightarrow> f | _ \<Rightarrow> ''D''),
         req_alpha = VNum (case req_alpha input of VNum a \<Rightarrow> a | _ \<Rightarrow> Fin (5 / 100)),
         req_flags = Val
           \<lparr>use_auto_exog = Val True,
            exog_strategy = Val (case req_flags input of
                                   Val fl \<Rightarrow> (case exog_strategy fl of Val s \<Rightarrow> s | _ \<Rightarrow> ''smart'')
                                 | _ \<Rightarrow> ''smart''),
            clip_non_negative = Val (case req_flags input of
                                       Val fl \<Rightarrow> (case clip_non_negative fl of Val b \<Rightarrow> b | _ \<Rightarrow> True)
                                     | _ \<Rightarrow> True),
            floor_value = Val (case req_flags input of
                                 Val fl \<Rightarrow> (case floor_value fl of Val x \<Rightarrow> x | _ \<Rightarrow> Fin 0)
                               | _ \<Rightarrow> Fin 0)\<rparr>,
         req_exog = Undefined\<rparr>"
    unfolding withPredictDefaults_def Let_def alpha d nullish_or_case
      fl[of exog_strategy] fl[of clip_non_negative] fl[of floor_value]
    by auto
  have passthrough: "\<forall>payload. req_exog input = Val payload \<longrightarrow> withPredictDefaults input = input"
    by (simp add: withPredictDefaults_def)
  show ?thesis using auto_body passthrough by (rule conjI)
qed

theorem withPredictDefaults_auto_witness:
  "req_exog \<lparr>req_horizon = Val (Fin 14), req_frequency = Val ''D'', req_alpha = VUndef,
             req_flags = Undefined, req_exog = Undefined\<rparr> = Undefined \<and>
   withPredictDefaults \<lparr>req_horizon = Val (Fin 14), req_frequency = Val ''D'', req_alpha = VUndef,
             req_flags = Undefined, req_exog = Undefined\<rparr>
     = \<lparr>req_horizon = Val (Fin 14), req_frequency = Val ''D'', req_alpha = VNum (Fin (5 / 100)),
        req_flags = Val \<lparr>use_auto_exog = Val True, exog_strategy = Val ''smart'',
                          clip_non_negative = Val True, floor_value = Val (Fin 0)\<rparr>,
        req_exog = Undefined\<rparr> \<and>
   withPredictDefaults \<lparr>req_horizon = Val (Fin 7), req_frequency = Undefined, req_alpha = VNum (Fin (1 / 10)),
             req_flags = Undefined, req_exog = Val (ExogMap [(''ADR'', [Fin 1])])\<rparr>
     = \<lparr>req_horizon = Val (Fin 7), req_frequency = Undefined, req_alpha = VNum (Fin (1 / 10)),
             req_flags = Undefined, req_exog = Val (ExogMap [(''ADR'', [Fin 1])])\<rparr>"
  using withPredictDefaults_auto[of "\<lparr>req_horizon = Val (Fin 14), req_frequency = Val ''D'', req_alpha = VUndef,
             req_flags = Undefined, req_exog = Undefined\<rparr>"]
    withPredictDefaults_auto[of "\<lparr>req_horizon = Val (Fin 7), req_frequency = Undefined, req_alpha = VNum (Fin (1 / 10)),
             req_flags = Undefined, req_exog = Val (ExogMap [(''ADR'', [Fin 1])])\<rparr>"]
  by simp

section \<open>Verified properties: stable hashing\<close>

lemma val_of_entry: "distinct (map fst kvs) \<Longrightarrow> p \<in> set kvs \<Longrightarrow> val_of kvs (fst p) = snd p"
  by (cases p) (simp add: val_of_def)

lemma val_of_keys:
  "distinct (map fst kvs) \<Longrightarrow> map (\<lambda>k. f (val_of kvs k)) (map fst kvs) = map (\<lambda>p. f (snd p)) kvs"
  by (simp add: val_of_entry)

lemma distinct_concat_map:
  "distinct ks \<Longrightarrow>
   distinct (concat (map g ks)) \<longleftrightarrow>
     (\<forall>k\<in>set ks. distinct (g k)) \<and>
     (\<forall>k\<in>set ks. \<forall>k'\<in>set ks. k \<noteq> k' \<longrightarrow> set (g k) \<inter> set (g k') = {})"
  by (induction ks) (auto, blast+)

text \<open>The addresses below an object, read through its sorted keys.\<close>

lemma sorted_keys_addrs:
  assumes "distinct (map fst kvs)"
  shows "distinct (concat (map (\<lambda>k. addrs (val_of kvs k)) (sort (map fst kvs))))
           \<longleftrightarrow> distinct (concat (map (\<lambda>p. addrs (snd p)) kvs))"
    and "set (concat (map (\<lambda>k. addrs (val_of kvs k)) (sort (map fst kvs))))
           = set (concat (map (\<lambda>p. addrs (snd p)) kvs))"
proof -
  let ?g = "\<lambda>k. addrs (val_of kvs k)"
  have d: "distinct (sort (map fst kvs))" using assms by simp
  have "distinct (concat (map ?g (sort (map fst kvs)))) \<longleftrightarrow> distinct (concat (map ?g (map fst kvs)))"
    unfolding distinct_concat_map[OF d] distinct_concat_map[OF assms] by simp
  then show "distinct (concat (map ?g (sort (map fst kvs))))
           \<longleftrightarrow> distinct (concat (map (\<lambda>p. addrs (snd p)) kvs))"
    unfolding val_of_keys[OF assms] .
  have "set (concat (map ?g (sort (map fst kvs)))) = set (concat (map ?g (map fst kvs)))"
    by simp
  then show "set (concat (map ?g (sort (map fst kvs)))) = set (concat (map (\<lambda>p. addrs (snd p)) kvs))"
    unfolding val_of_keys[OF assms] .
qed

text \<open>
  On a value without a repeated reference the set \<open>seen\<close> never fires, and \<open>sorter\<close> returns
  the sorted copy.
\<close>

lemma sorter_tree:
  "wf_json v \<Longrightarrow> distinct (addrs v) \<Longrightarrow> set (addrs v) \<inter> seen = {} \<Longrightarrow>
     sorter seen v = (canon v, seen \<union> set (addrs v))"
  "(\<forall>x\<in>set xs. wf_json x) \<Longrightarrow> distinct (concat (map addrs xs)) \<Longrightarrow>
     set (concat (map addrs xs)) \<inter> seen = {} \<Longrightarrow>
     sorter_array seen xs = (map canon xs, seen \<union> set (concat (map addrs xs)))"
  "(\<forall>k\<in>set ks. wf_json (val_of kvs k)) \<Longrightarrow>
     distinct (concat (map (\<lambda>k. addrs (val_of kvs k)) ks)) \<Longrightarrow>
     set (concat (map (\<lambda>k. addrs (val_of kvs k)) ks)) \<inter> seen = {} \<Longrightarrow>
     sorter_object seen kvs ks out =
       (foldl (\<lambda>out k. obj_set out k (canon (val_of kvs k))) out ks,
        seen \<union> set (concat (map (\<lambda>k. addrs (val_of kvs k)) ks)))"
proof (induction seen v and seen xs and seen kvs ks out rule: sorter_sorter_array_sorter_object.induct)
  case (6 seen a xs)
  have a: "a \<notin> seen" using "6.prems"(3) by simp
  have "sorter_array (insert a seen) xs = (map canon xs, insert a seen \<union> set (concat (map addrs xs)))"
    using "6.prems" a by (intro "6.IH") auto
  then show ?case using a by simp
next
  case (7 seen a kvs)
  have a: "a \<notin> seen" using "7.prems"(3) by simp
  have dk: "distinct (map fst kvs)" using "7.prems"(1) by simp
  have wfk: "\<forall>k\<in>set (sort (map fst kvs)). wf_json (val_of kvs k)"
    using "7.prems"(1) val_of_entry[OF dk] by auto
  have "sorter_object (insert a seen) kvs (sort (map fst kvs)) [] =
      (foldl (\<lambda>out k. obj_set out k (canon (val_of kvs k))) [] (sort (map fst kvs)),
       insert a seen \<union> set (concat (map (\<lambda>k. addrs (val_of kvs k)) (sort (map fst kvs)))))"
  proof (rule "7.IH"[OF a wfk])
    show "distinct (concat (map (\<lambda>k. addrs (val_of kvs k)) (sort (map fst kvs))))"
      unfolding sorted_keys_addrs(1)[OF dk] using "7.prems"(2) by simp
    show "set (concat (map (\<lambda>k. addrs (val_of kvs k)) (sort (map fst kvs)))) \<inter> insert a seen = {}"
      unfolding sorted_keys_addrs(2)[OF dk] using "7.prems"(2,3) by auto
  qed
  then have "sorter_object (insert a seen) kvs (sort (map fst kvs)) [] =
      (foldl (\<lambda>out k. obj_set out k (canon (val_of kvs k))) [] (sort (map fst kvs)),
       insert a seen \<union> set (concat (map (\<lambda>p. addrs (snd p)) kvs)))"
    unfolding sorted_keys_addrs(2)[OF dk] .
  then show ?case using a by simp
next
  case (9 seen x xs)
  have 1: "sorter seen x = (canon x, seen \<union> set (addrs x))"
    using "9.prems" by (intro "9.IH"(1)) auto
  have 2: "sorter_array (seen \<union> set (addrs x)) xs =
      (map canon xs, (seen \<union> set (addrs x)) \<union> set (concat (map addrs xs)))"
    using "9.prems" by (intro "9.IH"(2)[OF 1[symmetric]]) auto
  show ?case by (simp add: 1 2 Un_assoc)
next
  case (11 seen kvs k ks out)
  have 1: "sorter seen (val_of kvs k) = (canon (val_of kvs k), seen \<union> set (addrs (val_of kvs k)))"
    using "11.prems" by (intro "11.IH"(1)) auto
  have 2: "sorter_object (seen \<union> set (addrs (val_of kvs k))) kvs ks (obj_set out k (canon (val_of kvs k))) =
      (foldl (\<lambda>out k. obj_set out k (canon (val_of kvs k))) (obj_set out k (canon (val_of kvs k))) ks,
       (seen \<union> set (addrs (val_of kvs k))) \<union> set (concat (map (\<lambda>k. addrs (val_of kvs k)) ks)))"
    using "11.prems" by (intro "11.IH"(2)[OF 1[symmetric]]) auto
  show ?case by (simp add: 1 2 Un_assoc)
qed simp_all

lemma key_equiv_canon:
  "key_equiv v w \<Longrightarrow> canon v = canon w \<and> wf_json v \<and> wf_json w"
proof (induction rule: key_equiv.induct)
  case (arr xs ys a b)
  then have "map canon xs = map canon ys" "\<forall>x\<in>set xs. wf_json x" "\<forall>y\<in>set ys. wf_json y"
    by (induction xs ys rule: list_all2_induct) auto
  then show ?case by simp
next
  case (obj kvs kws a b)
  have keys: "sort (map fst kvs) = sort (map fst kws)"
    using obj(1,2,3) by (intro sorted_distinct_set_unique) simp_all
  have vals: "\<forall>k\<in>set (sort (map fst kvs)). canon (val_of kvs k) = canon (val_of kws k)"
    using obj(4) by simp
  have fold_eq: "foldl (\<lambda>out k. obj_set out k (canon (val_of kvs k))) out ks
      = foldl (\<lambda>out k. obj_set out k (canon (val_of kws k))) out ks"
    if "\<forall>k\<in>set ks. canon (val_of kvs k) = canon (val_of kws k)" for ks and out :: "(string \<times> sorted_json) list"
    using that by (induction ks arbitrary: out) simp_all
  have c: "canon (JObj a kvs) = canon (JObj b kws)"
    using fold_eq[OF vals] keys by simp
  have w1: "\<forall>p\<in>set kvs. wf_json (snd p)"
  proof
    fix p assume p: "p \<in> set kvs"
    then have "fst p \<in> set (map fst kvs)" by simp
    then have "wf_json (val_of kvs (fst p))" using obj(4) by blast
    then show "wf_json (snd p)" using val_of_entry[OF obj(1) p] by simp
  qed
  have w2: "\<forall>p\<in>set kws. wf_json (snd p)"
  proof
    fix p assume p: "p \<in> set kws"
    then have "fst p \<in> set (map fst kvs)" using obj(3) by simp
    then have "wf_json (val_of kws (fst p))" using obj(4) by blast
    then show "wf_json (snd p)" using val_of_entry[OF obj(2) p] by simp
  qed
  show ?case using c w1 w2 obj(1,2) by simp
qed simp_all

lemma stableStringify_tree:
  "wf_json v \<Longrightarrow> distinct (addrs v) \<Longrightarrow> stableStringify num_str v = stringify num_str (canon v)"
  using sorter_tree(1)[of v "{}"] by (simp add: stableStringify_def)

text \<open>
  C9, as stated, fails for a value in which a reference occurs twice: the second occurrence is
  taken for a cycle and dropped, so \<open>{a: d, b: d}\<close> with one empty array \<open>d\<close> and
  \<open>{a: [], b: []}\<close> with two are equal as values and have different hashes.
\<close>

theorem hashObject_shared_reference_counterexample:
  "key_equiv (JObj 0 [(''a'', JArr 1 []), (''b'', JArr 1 [])])
             (JObj 0 [(''a'', JArr 1 []), (''b'', JArr 2 [])]) \<and>
   stableStringify (\<lambda>n. []) (JObj 0 [(''a'', JArr 1 []), (''b'', JArr 1 [])])
     = Some (''{'' @ [CHR 0x22] @ ''a'' @ [CHR 0x22] @ '':[]}'') \<and>
   stableStringify (\<lambda>n. []) (JObj 0 [(''a'', JArr 1 []), (''b'', JArr 2 [])])
     = Some (''{'' @ [CHR 0x22] @ ''a'' @ [CHR 0x22] @ '':[],'' @ [CHR 0x22] @ ''b'' @ [CHR 0x22] @ '':[]}'') \<and>
   hashObject (\<lambda>n. []) (JObj 0 [(''a'', JArr 1 []), (''b'', JArr 1 [])])
     \<noteq> hashObject (\<lambda>n. []) (JObj 0 [(''a'', JArr 1 []), (''b'', JArr 2 [])])"
proof -
  have e: "key_equiv (JObj 0 [(''a'', JArr 1 []), (''b'', JArr 1 [])])
             (JObj 0 [(''a'', JArr 1 []), (''b'', JArr 2 [])])"
    by (rule key_equiv.obj) (auto simp: val_of_def intro: key_equiv.intros)
  have s1: "stableStringify (\<lambda>n. []) (JObj 0 [(''a'', JArr 1 []), (''b'', JArr 1 [])])
     = Some (''{'' @ [CHR 0x22] @ ''a'' @ [CHR 0x22] @ '':[]}'')"
    by code_simp
  have s2: "stableStringify (\<lambda>n. []) (JObj 0 [(''a'', JArr 1 []), (''b'', JArr 2 [])])
     = Some (''{'' @ [CHR 0x22] @ ''a'' @ [CHR 0x22] @ '':[],'' @ [CHR 0x22] @ ''b'' @ [CHR 0x22] @ '':[]}'')"
    by code_simp
  have h: "hashObject (\<lambda>n. []) (JObj 0 [(''a'', JArr 1 []), (''b'', JArr 1 [])])
     \<noteq> hashObject (\<lambda>n. []) (JObj 0 [(''a'', JArr 1 []), (''b'', JArr 2 [])])"
    by code_simp
  show ?thesis using e s1 s2 h by (intro conjI)
qed

text \<open>
  C9 (amended): two values that are equal up to the order of the keys of their objects, and in
  each of which no array or object reference occurs twice, have equal hashes; in particular
  \<open>hashObject({a:1,b:2}) = hashObject({b:2,a:1})\<close>.
\<close>

theorem hashObject_key_order:
  assumes "key_equiv v w" "distinct (addrs v)" "distinct (addrs w)"
  shows "hashObject num_str v = hashObject num_str w"
proof -
  from key_equiv_canon[OF assms(1)]
  have c: "canon v = canon w" and wv: "wf_json v" and ww: "wf_json w" by simp_all
  have "stableStringify num_str v = stableStringify num_str w"
    by (simp add: stableStringify_tree[OF wv assms(2)] stableStringify_tree[OF ww assms(3)] c)
  then show ?thesis by (simp add: hashObject_def)
qed

theorem hashObject_key_order_witness:
  "hashObject (\<lambda>n. if n = Fin 1 then ''1'' else ''2'')
       (JObj 0 [(''a'', JNum (Fin 1)), (''b'', JNum (Fin 2))])
   = hashObject (\<lambda>n. if n = Fin 1 then ''1'' else ''2'')
       (JObj 1 [(''b'', JNum (Fin 2)), (''a'', JNum (Fin 1))])"
proof -
  have e: "key_equiv (JObj 0 [(''a'', JNum (Fin 1)), (''b'', JNum (Fin 2))])
                     (JObj 1 [(''b'', JNum (Fin 2)), (''a'', JNum (Fin 1))])"
    by (rule key_equiv.obj) (auto simp: val_of_def intro: key_equiv.intros)
  have d1: "distinct (addrs (JObj 0 [(''a'', JNum (Fin 1)), (''b'', JNum (Fin 2))]))" by simp
  have d2: "distinct (addrs (JObj 1 [(''b'', JNum (Fin 2)), (''a'', JNum (Fin 1))]))" by simp
  show ?thesis by (rule hashObject_key_order[OF e d1 d2])
qed

section \<open>Verified properties: arithmetic of doubles\<close>

text \<open>Powers of two and the binary exponent.\<close>

declare bit_length.simps [simp del]

lemma pow2_powi: "pow2 e = 2 powi e"
  by (simp add: pow2_def power_int_def inverse_eq_divide power_one_over)

lemma pow2_pos: "0 < pow2 e"
  by (simp add: pow2_powi)


lemma pow2_diff: "pow2 (a - b) = pow2 a / pow2 b"
  by (simp add: pow2_powi power_int_diff)

lemma pow2_mono: "a \<le> b \<Longrightarrow> pow2 a \<le> pow2 b"
  by (simp add: pow2_powi power_int_increasing)

lemma pow2_strict_mono: "a < b \<Longrightarrow> pow2 a < pow2 b"
  by (simp add: pow2_powi power_int_strict_increasing)

lemma pow2_less_imp: "pow2 a < pow2 b \<Longrightarrow> a < b"
  using pow2_mono[of b a] by (cases "a < b") auto

lemma pow2_nat: "0 \<le> e \<Longrightarrow> pow2 e = of_int (2 ^ nat e)"
  by (simp add: pow2_def)

lemma bit_length_pos: "0 < n \<Longrightarrow> 1 \<le> bit_length n"
proof (induction n rule: bit_length.induct)
  case (1 n)
  then show ?case
    using bit_length.simps[of n] bit_length.simps[of 0]
    by (cases "0 < n div 2") (auto simp: bit_length.simps[of "n div 2"])
qed

lemma bit_length_nonneg: "0 \<le> bit_length n"
  using bit_length_pos[of n] bit_length.simps[of n] by (cases "0 < n") auto

lemma bit_length_bounds:
  "0 < n \<Longrightarrow> 2 ^ nat (bit_length n - 1) \<le> n \<and> n < 2 ^ nat (bit_length n)"
proof (induction n rule: bit_length.induct)
  case (1 n)
  have b: "bit_length n = 1 + bit_length (n div 2)" using "1.prems" bit_length.simps[of n] by simp
  show ?case
  proof (cases "0 < n div 2")
    case False
    then have n1: "n = 1" using "1.prems" by linarith
    have "bit_length (1 div 2) = 0" using bit_length.simps[of "1 div 2"] by simp
    then show ?thesis using b n1 by simp
  next
    case True
    have ih: "2 ^ nat (bit_length (n div 2) - 1) \<le> n div 2" "n div 2 < 2 ^ nat (bit_length (n div 2))"
      using "1.IH" "1.prems" True by auto
    have p: "1 \<le> bit_length (n div 2)" using bit_length_pos[OF True] .
    have e1: "nat (bit_length n - 1) = Suc (nat (bit_length (n div 2) - 1))" using b p by simp
    have e2: "nat (bit_length n) = Suc (nat (bit_length (n div 2)))" using b p by simp
    have "2 * (n div 2) \<le> n" "n \<le> 2 * (n div 2) + 1" by linarith+
    then show ?thesis using ih unfolding e1 e2 by auto
  qed
qed

lemma bit_length_pow2:
  assumes "0 < n"
  shows "pow2 (bit_length n - 1) \<le> of_int n" "of_int n < pow2 (bit_length n)"
proof -
  have p: "1 \<le> bit_length n" using bit_length_pos[OF assms] .
  have b: "2 ^ nat (bit_length n - 1) \<le> n" "n < 2 ^ nat (bit_length n)"
    using bit_length_bounds[OF assms] by auto
  have "pow2 (bit_length n - 1) = of_int (2 ^ nat (bit_length n - 1))" using p by (intro pow2_nat) simp
  also have "\<dots> \<le> of_int n" using b(1) by (simp only: of_int_le_iff)
  finally show "pow2 (bit_length n - 1) \<le> of_int n" .
  have "(of_int n :: rat) < of_int (2 ^ nat (bit_length n))" using b(2) by (simp only: of_int_less_iff)
  also have "\<dots> = pow2 (bit_length n)" using p by (intro pow2_nat[symmetric]) simp
  finally show "of_int n < pow2 (bit_length n)" .
qed

lemma ilog2_bounds:
  assumes "0 < a"
  shows "pow2 (ilog2 a) \<le> a" "a < pow2 (ilog2 a + 1)"
proof -
  obtain p q where pq: "quotient_of a = (p, q)" by (cases "quotient_of a")
  have q: "0 < q" using quotient_of_denom_pos[OF pq] .
  have a: "a = of_int p / of_int q" using quotient_of_div[OF pq] .
  have p: "0 < p" using assms q a by (simp add: zero_less_divide_iff)
  let ?d = "bit_length p - bit_length q"
  note bp = bit_length_pow2[OF p] and bq = bit_length_pow2[OF q]
  have qpos: "(0::rat) < of_int q" using q by simp
  have up: "a < pow2 (?d + 1)"
  proof -
    have "a < pow2 (bit_length p) / of_int q" unfolding a using bp(2) qpos by (simp add: divide_strict_right_mono)
    also have "\<dots> \<le> pow2 (bit_length p) / pow2 (bit_length q - 1)"
      using bq(1) pow2_pos[of "bit_length q - 1"] pow2_pos[of "bit_length p"]
      by (intro divide_left_mono) (auto intro: mult_pos_pos simp: less_imp_le)
    also have "\<dots> = pow2 (?d + 1)" by (simp add: pow2_diff[symmetric] algebra_simps)
    finally show ?thesis .
  qed
  have lo: "pow2 (?d - 1) \<le> a"
  proof -
    have "pow2 (?d - 1) = pow2 (bit_length p - 1) / pow2 (bit_length q)"
      by (simp add: pow2_diff[symmetric] algebra_simps)
    also have "\<dots> \<le> of_int p / pow2 (bit_length q)"
      using bp(1) pow2_pos[of "bit_length q"] by (simp add: divide_right_mono)
    also have "\<dots> \<le> of_int p / of_int q"
      using bq(2) qpos p by (intro divide_left_mono) (auto intro: mult_pos_pos simp: less_imp_le pow2_pos)
    finally show ?thesis unfolding a .
  qed
  have il: "ilog2 a = (if pow2 ?d \<le> a then ?d else ?d - 1)"
    by (simp add: ilog2_def pq Let_def)
  show "pow2 (ilog2 a) \<le> a" using lo by (simp add: il)
  show "a < pow2 (ilog2 a + 1)" using up by (auto simp: il not_le)
qed

lemma ilog2_unique: "0 < a \<Longrightarrow> pow2 e \<le> a \<Longrightarrow> a < pow2 (e + 1) \<Longrightarrow> ilog2 a = e"
proof -
  assume a: "0 < a" "pow2 e \<le> a" "a < pow2 (e + 1)"
  note b = ilog2_bounds[OF a(1)]
  have "pow2 e < pow2 (ilog2 a + 1)" using a(2) b(2) by simp
  then have 1: "e < ilog2 a + 1" by (rule pow2_less_imp)
  have "pow2 (ilog2 a) < pow2 (e + 1)" using a(3) b(1) by simp
  then have 2: "ilog2 a < e + 1" by (rule pow2_less_imp)
  show ?thesis using 1 2 by simp
qed


text \<open>Rounding to the nearest integer, a tie to the even one.\<close>

lemma round_half_even_cases:
  "round_half_even x = \<lfloor>x\<rfloor> \<and> x - of_int \<lfloor>x\<rfloor> \<le> 1 / 2 \<or>
   round_half_even x = \<lfloor>x\<rfloor> + 1 \<and> 1 / 2 \<le> x - of_int \<lfloor>x\<rfloor>"
  by (auto simp: round_half_even_def Let_def)


lemma round_half_even_int: "round_half_even (of_int n) = n"
  by (simp add: round_half_even_def)

lemma round_half_even_mono:
  assumes "x \<le> y"
  shows "round_half_even x \<le> round_half_even y"
proof (cases "\<lfloor>x\<rfloor> = \<lfloor>y\<rfloor>")
  case True
  then have "x - of_int \<lfloor>x\<rfloor> \<le> y - of_int \<lfloor>y\<rfloor>" using assms by simp
  then show ?thesis using True by (auto simp: round_half_even_def Let_def)
next
  case False
  then have "\<lfloor>x\<rfloor> + 1 \<le> \<lfloor>y\<rfloor>" using floor_mono[OF assms] by linarith
  moreover have "round_half_even x \<le> \<lfloor>x\<rfloor> + 1" using round_half_even_cases[of x] by auto
  moreover have "\<lfloor>y\<rfloor> \<le> round_half_even y" using round_half_even_cases[of y] by auto
  ultimately show ?thesis by linarith
qed

lemma round_half_even_ge: "of_int n \<le> x \<Longrightarrow> n \<le> round_half_even x"
  using round_half_even_mono[of "of_int n" x] by (simp add: round_half_even_int)




lemma round_magnitude_eq:
  "round_magnitude a = of_int (round_half_even (a / pow2 (double_exponent a - 52))) * pow2 (double_exponent a - 52)"
  by (simp add: round_magnitude_def Let_def)





lemma round_magnitude_nonneg:
  assumes "0 \<le> a"
  shows "0 \<le> round_magnitude a"
proof -
  have "0 \<le> a / pow2 (double_exponent a - 52)" using assms pow2_pos by (simp add: less_imp_le)
  then have "0 \<le> round_half_even (a / pow2 (double_exponent a - 52))"
    using round_half_even_ge[of 0] by simp
  then show ?thesis unfolding round_magnitude_eq using pow2_pos[of "double_exponent a - 52"]
    by (simp add: less_imp_le)
qed




text \<open>Rounding to a double: sign, order, and the integers.\<close>

lemma round_double_pos:
  "0 < q \<Longrightarrow> round_double q =
     (if pow2 1024 \<le> round_magnitude q then PosInf else Fin (round_magnitude q))"
  by (simp add: round_double_def Let_def)

lemma round_double_minus: "round_double (- q) = negate (round_double q)"
  by (simp add: round_double_def Let_def)

lemma round_double_not_NaN: "round_double q \<noteq> NaN"
  by (simp add: round_double_def Let_def)

lemma round_double_nonneg:
  assumes "0 \<le> q"
  shows "round_double q = PosInf \<or> (\<exists>r. round_double q = Fin r \<and> 0 \<le> r)"
proof (cases "q = 0")
  case True
  then show ?thesis by (simp add: round_double_def)
next
  case False
  then have q: "0 < q" using assms by simp
  show ?thesis using round_magnitude_nonneg[OF assms] by (simp add: round_double_pos[OF q])
qed

lemma js_le_refl: "x \<noteq> NaN \<Longrightarrow> js_le x x"
  by (cases x) simp_all





text \<open>Integers below \<open>2^53\<close> are doubles.\<close>

lemma round_double_int:
  assumes "0 \<le> n" "n < 2 ^ 53"
  shows "round_double (of_int n) = Fin (of_int n)"
proof (cases "n = 0")
  case True
  then show ?thesis by (simp add: round_double_def)
next
  case False
  then have n: "0 < n" using assms(1) by simp
  let ?a = "of_int n :: rat"
  have a: "0 < ?a" using n by simp
  have "pow2 0 \<le> ?a" using n by (simp add: pow2_def)
  then have "pow2 0 < pow2 (ilog2 ?a + 1)" using ilog2_bounds(2)[OF a] by simp
  then have lo: "0 \<le> ilog2 ?a" using pow2_less_imp by fastforce
  have "?a < of_int (2 ^ 53)" using assms(2) by (simp only: of_int_less_iff)
  then have "?a < pow2 53" by (simp add: pow2_nat)
  then have "pow2 (ilog2 ?a) < pow2 53" using ilog2_bounds(1)[OF a] by simp
  then have hi: "ilog2 ?a < 53" by (rule pow2_less_imp)
  have e: "double_exponent ?a = ilog2 ?a" using lo by (simp add: double_exponent_def)
  define m where "m = nat (52 - ilog2 ?a)"
  have u: "pow2 (double_exponent ?a - 52) = 1 / of_int (2 ^ m)"
    using hi by (simp add: e pow2_def m_def)
  have "?a / pow2 (double_exponent ?a - 52) = of_int (n * 2 ^ m)" by (simp add: u)
  then have "round_half_even (?a / pow2 (double_exponent ?a - 52)) = n * 2 ^ m"
    by (simp only: round_half_even_int)
  then have rm: "round_magnitude ?a = ?a"
    unfolding round_magnitude_eq by (simp add: u)
  have "?a < pow2 1024" using \<open>?a < pow2 53\<close> pow2_mono[of 53 1024] by simp
  then show ?thesis using rm by (simp add: round_double_pos[OF a])
qed

text \<open>Rounding at a given exponent: how a concrete operation is evaluated.\<close>

lemma round_half_even_eq:
  assumes "\<bar>x - of_int n\<bar> < 1 / 2 \<or> (\<bar>x - of_int n\<bar> = 1 / 2 \<and> even n)"
  shows "round_half_even x = n"
proof -
  consider (lo) "x < of_int n" | (hi) "of_int n \<le> x" by linarith
  then show ?thesis
  proof cases
    case lo
    then have x: "of_int n - 1 / 2 \<le> x" using assms by linarith
    have f: "\<lfloor>x\<rfloor> = n - 1" using lo x by linarith
    show ?thesis
    proof (cases "x = of_int n - 1 / 2")
      case True
      then have "even n" using assms by auto
      then show ?thesis using True f by (simp add: round_half_even_def Let_def)
    next
      case False
      then have "of_int n - 1 / 2 < x" using x by simp
      then show ?thesis using f by (simp add: round_half_even_def Let_def)
    qed
  next
    case hi
    then have x: "x \<le> of_int n + 1 / 2" using assms by linarith
    have f: "\<lfloor>x\<rfloor> = n" using hi x by linarith
    show ?thesis
    proof (cases "x = of_int n + 1 / 2")
      case True
      then have "even n" using assms by auto
      then show ?thesis using True f by (simp add: round_half_even_def Let_def)
    next
      case False
      then have "x < of_int n + 1 / 2" using x by simp
      then show ?thesis using f by (simp add: round_half_even_def Let_def)
    qed
  qed
qed

lemma round_double_at:
  assumes "0 < q" "pow2 e \<le> q" "q < pow2 (e + 1)" "- 1022 \<le> e"
    and "\<bar>q / pow2 (e - 52) - of_int n\<bar> < 1 / 2 \<or> (\<bar>q / pow2 (e - 52) - of_int n\<bar> = 1 / 2 \<and> even n)"
    and "of_int n * pow2 (e - 52) < pow2 1024"
  shows "round_double q = Fin (of_int n * pow2 (e - 52))"
proof -
  have "ilog2 q = e" by (rule ilog2_unique[OF assms(1-3)])
  then have e: "double_exponent q = e" using assms(4) by (simp add: double_exponent_def)
  have "round_magnitude q = of_int n * pow2 (e - 52)"
    unfolding round_magnitude_eq e by (simp only: round_half_even_eq[OF assms(5)])
  then show ?thesis using assms(6) by (simp add: round_double_pos[OF assms(1)])
qed

lemma round_double_numeral:
  "(numeral w :: int) < 2 ^ 53 \<Longrightarrow> round_double (numeral w) = Fin (numeral w)"
  using round_double_int[of "numeral w"] by simp

lemma round_double_0: "round_double 0 = Fin 0"
  by (simp add: round_double_def)

lemma round_double_1: "round_double 1 = Fin 1"
  using round_double_int[of 1] by simp


section \<open>Verified properties: histogram bins\<close>

lemma clamp_bounds: "lo \<le> hi \<Longrightarrow> lo \<le> clamp n lo hi \<and> clamp n lo hi \<le> hi"
  by (simp add: clamp_def)


lemma hist_domain_ordered: "hist_domain clean mode = (mn, mx) \<Longrightarrow> mn \<le> mx"
  by (cases mode) (auto simp: hist_domain_def Let_def)



text \<open>The span and the width of the bins.\<close>

lemma js_sub_Fin: "js_sub (Fin a) (Fin b) = round_double (a - b)"
  by (simp add: js_sub_def)

lemma span_cases:
  assumes "mn \<le> mx"
  shows "js_sub (Fin mx) (Fin mn) = PosInf \<or> (\<exists>s. js_sub (Fin mx) (Fin mn) = Fin s \<and> 0 \<le> s)"
  using round_double_nonneg[of "mx - mn"] assms by (simp add: js_sub_Fin)

lemma bin_width_cases:
  assumes "mn \<le> mx" "0 < k"
  shows "bin_width mn mx k = PosInf \<or> (\<exists>w. bin_width mn mx k = Fin w \<and> 0 < w)"
proof -
  from span_cases[OF assms(1)] show ?thesis
  proof
    assume "js_sub (Fin mx) (Fin mn) = PosInf"
    then show ?thesis using assms(2) by (simp add: bin_width_def inf_of_sign_def)
  next
    assume "\<exists>s. js_sub (Fin mx) (Fin mn) = Fin s \<and> 0 \<le> s"
    then obtain s where s: "js_sub (Fin mx) (Fin mn) = Fin s" "0 \<le> s" by blast
    have "0 \<le> s / of_int k" using s(2) assms(2) by simp
    from round_double_nonneg[OF this] show ?thesis
      using assms(2) s(1) by (auto simp: bin_width_def Let_def)
  qed
qed


text \<open>With a finite width the index of a bin is an integer from 0 to \<open>k - 1\<close>.\<close>

lemma clamp_index:
  assumes "0 < k" "x \<noteq> NaN"
  shows "\<exists>j. (let idx = js_floor x;
                  idx = (if js_lt idx (Fin 0) then Fin 0 else idx);
                  idx = (if js_le (Fin (of_int k)) idx then Fin (of_int k - 1) else idx)
              in idx) = Fin (of_int j) \<and> 0 \<le> j \<and> j < k"
proof (cases x)
  case (Fin c)
  show ?thesis
  proof (cases "c < 0")
    case True
    then have "\<lfloor>c\<rfloor> < 0" by linarith
    then show ?thesis using Fin assms(1) by (intro exI[of _ 0]) (simp add: Let_def)
  next
    case False
    then have f: "0 \<le> \<lfloor>c\<rfloor>" by simp
    show ?thesis
    proof (cases "of_int k \<le> (of_int \<lfloor>c\<rfloor> :: rat)")
      case True
      then show ?thesis using Fin f assms(1)
        by (intro exI[of _ "k - 1"]) (simp add: Let_def)
    next
      case False
      then have "\<lfloor>c\<rfloor> < k" by simp
      then show ?thesis using Fin f False
        by (intro exI[of _ "\<lfloor>c\<rfloor>"]) (simp add: Let_def)
    qed
  qed
next
  case NaN
  then show ?thesis using assms by simp
next
  case PosInf
  then show ?thesis using assms(1) by (intro exI[of _ "k - 1"]) (simp add: Let_def)
next
  case NegInf
  then show ?thesis using assms(1) by (intro exI[of _ 0]) (simp add: Let_def)
qed

lemma js_div_finite_width:
  assumes "w \<noteq> 0"
  shows "js_div (round_double q) (Fin w) \<noteq> NaN"
proof (cases "round_double q")
  case (Fin a)
  then show ?thesis using assms round_double_not_NaN by simp
next
  case NaN
  then show ?thesis using round_double_not_NaN by simp
next
  case PosInf
  then show ?thesis by (simp add: inf_of_sign_def)
next
  case NegInf
  then show ?thesis by (simp add: inf_of_sign_def)
qed

lemma bin_index_range:
  assumes "0 < k" "w \<noteq> 0"
  shows "\<exists>j. bin_index mn (Fin w) k v = Fin (of_int j) \<and> 0 \<le> j \<and> j < k"
  unfolding bin_index_def js_sub_Fin
  by (rule clamp_index[OF assms(1) js_div_finite_width[OF assms(2)]])

text \<open>The counting loop.\<close>

lemma of_int_floor_nat:
  assumes "0 \<le> i" "i = of_int \<lfloor>i\<rfloor>"
  shows "(i :: rat) = of_nat (nat \<lfloor>i\<rfloor>)"
proof -
  have "0 \<le> \<lfloor>i\<rfloor>" using assms(1) by simp
  then have "(of_nat (nat \<lfloor>i\<rfloor>) :: rat) = of_int \<lfloor>i\<rfloor>" by simp
  then show ?thesis using assms(2) by simp
qed

lemma count_value_Inr:
  assumes "count_value mn mx width k v rows = Inr rows'"
  shows "((v < mn \<or> mx < v) \<and> rows' = rows) \<or>
         (mn \<le> v \<and> v \<le> mx \<and>
          (\<exists>j<length rows. bin_index mn width k v = Fin (of_nat j) \<and>
              rows' = rows[j := (rows ! j)\<lparr>count := count (rows ! j) + 1\<rparr>]))"
proof (cases "v < mn \<or> mx < v")
  case True
  then show ?thesis using assms by (auto simp: count_value_def)
next
  case False
  then obtain i where i: "bin_index mn width k v = Fin i"
    using assms by (cases "bin_index mn width k v") (auto simp: count_value_def)
  have c: "0 \<le> i \<and> i = of_int \<lfloor>i\<rfloor> \<and> nat \<lfloor>i\<rfloor> < length rows"
    using assms False i by (auto simp: count_value_def split: if_splits)
  then have r: "rows' = rows[nat \<lfloor>i\<rfloor> := (rows ! nat \<lfloor>i\<rfloor>)\<lparr>count := count (rows ! nat \<lfloor>i\<rfloor>) + 1\<rparr>]"
    using assms False i by (auto simp: count_value_def)
  have "i = of_nat (nat \<lfloor>i\<rfloor>)" using c of_int_floor_nat by blast
  then have "bin_index mn width k v = Fin (of_nat (nat \<lfloor>i\<rfloor>))" using i by simp
  then show ?thesis using False c r by (intro disjI2) auto
qed

lemma count_value_length:
  "count_value mn mx width k v rows = Inr rows' \<Longrightarrow> length rows' = length rows"
  using count_value_Inr[of mn mx width k v rows rows'] by auto

lemma count_values_Cons_Inr:
  assumes "count_values mn mx width k (v # vs) rows = Inr h"
  shows "\<exists>rows'. count_value mn mx width k v rows = Inr rows' \<and>
                 count_values mn mx width k vs rows' = Inr h"
  using assms by (cases "count_value mn mx width k v rows") auto

lemma count_values_length:
  "count_values mn mx width k vs rows = Inr h \<Longrightarrow> length h = length rows"
proof (induction vs arbitrary: rows)
  case Nil
  then show ?case by simp
next
  case (Cons v vs)
  from count_values_Cons_Inr[OF Cons.prems] obtain rows' where
    r: "count_value mn mx width k v rows = Inr rows'" "count_values mn mx width k vs rows' = Inr h"
    by blast
  show ?case using Cons.IH[OF r(2)] count_value_length[OF r(1)] by simp
qed


lemma count_values_closed:
  "count_values mn mx width k vs rows = Inr h \<Longrightarrow>
   h = map (\<lambda>i. (rows ! i)\<lparr>count := count (rows ! i) +
                 length (filter (\<lambda>v. mn \<le> v \<and> v \<le> mx \<and> bin_index mn width k v = Fin (of_nat i)) vs)\<rparr>)
           [0..<length rows]"
proof (induction vs arbitrary: rows)
  case Nil
  then show ?case by (simp add: map_nth)
next
  case (Cons v vs)
  from count_values_Cons_Inr[OF Cons.prems] obtain rows' where
    r: "count_value mn mx width k v rows = Inr rows'" "count_values mn mx width k vs rows' = Inr h"
    by blast
  note ih = Cons.IH[OF r(2)]
  have len: "length rows' = length rows" by (rule count_value_length[OF r(1)])
  from count_value_Inr[OF r(1)] show ?case
  proof
    assume a: "(v < mn \<or> mx < v) \<and> rows' = rows"
    then have "\<not> (mn \<le> v \<and> v \<le> mx)" by auto
    then have "\<And>i. filter (\<lambda>v. mn \<le> v \<and> v \<le> mx \<and> bin_index mn width k v = Fin (of_nat i)) (v # vs) =
                   filter (\<lambda>v. mn \<le> v \<and> v \<le> mx \<and> bin_index mn width k v = Fin (of_nat i)) vs"
      by auto
    then show ?thesis using ih a by simp
  next
    assume "mn \<le> v \<and> v \<le> mx \<and>
      (\<exists>j<length rows. bin_index mn width k v = Fin (of_nat j) \<and>
          rows' = rows[j := (rows ! j)\<lparr>count := count (rows ! j) + 1\<rparr>])"
    then obtain j where j: "mn \<le> v" "v \<le> mx" "j < length rows"
      "bin_index mn width k v = Fin (of_nat j)"
      "rows' = rows[j := (rows ! j)\<lparr>count := count (rows ! j) + 1\<rparr>]" by blast
    show ?thesis
    proof (subst ih, unfold len, rule map_cong[OF refl])
      fix i assume "i \<in> set [0..<length rows]"
      then have i: "i < length rows" by simp
      show "(rows' ! i)\<lparr>count := count (rows' ! i) +
               length (filter (\<lambda>v. mn \<le> v \<and> v \<le> mx \<and> bin_index mn width k v = Fin (of_nat i)) vs)\<rparr> =
            (rows ! i)\<lparr>count := count (rows ! i) +
               length (filter (\<lambda>v. mn \<le> v \<and> v \<le> mx \<and> bin_index mn width k v = Fin (of_nat i)) (v # vs))\<rparr>"
      proof (cases "i = j")
        case True
        then show ?thesis using j i by simp
      next
        case False
        then have "bin_index mn width k v \<noteq> Fin (of_nat i)" using j(4) by simp
        moreover have "rows' ! i = rows ! i" using j(5) False by simp
        ultimately show ?thesis by simp
      qed
    qed
  qed
qed

lemma count_value_returns:
  assumes "0 < k" "w \<noteq> 0" "int (length rows) = k"
  shows "\<exists>rows'. count_value mn mx (Fin w) k v rows = Inr rows'"
proof -
  from bin_index_range[OF assms(1,2)] obtain j where
    j: "bin_index mn (Fin w) k v = Fin (of_int j)" "0 \<le> j" "j < k" by blast
  have "nat j < length rows" using j(2,3) assms(3) by linarith
  then show ?thesis using j by (simp add: count_value_def)
qed

lemma count_values_returns:
  assumes "0 < k" "w \<noteq> 0"
  shows "int (length rows) = k \<Longrightarrow> \<exists>h. count_values mn mx (Fin w) k vs rows = Inr h"
proof (induction vs arbitrary: rows)
  case Nil
  then show ?case by simp
next
  case (Cons v vs)
  from count_value_returns[OF assms Cons.prems] obtain rows' where
    r: "count_value mn mx (Fin w) k v rows = Inr rows'" by blast
  have "int (length rows') = k" using count_value_length[OF r] Cons.prems by simp
  from Cons.IH[OF this] show ?case using r by simp
qed

text \<open>The bins before and after the counting loop.\<close>

lemma toHistogram_unfold:
  assumes "finite_values values \<noteq> []" "hist_domain (finite_values values) mode = (mn, mx)"
  shows "toHistogram values bins mode =
         count_values mn mx (bin_width mn mx (clamp bins 5 60)) (clamp bins 5 60) (finite_values values)
           (map (\<lambda>i. \<lparr>x0 = js_add (Fin mn) (js_mul (Fin (of_nat i)) (bin_width mn mx (clamp bins 5 60))),
                      x1 = js_add (Fin mn) (js_mul (Fin (of_nat (Suc i))) (bin_width mn mx (clamp bins 5 60))),
                      center = js_div (js_add (js_add (Fin mn) (js_mul (Fin (of_nat i)) (bin_width mn mx (clamp bins 5 60))))
                                              (js_add (Fin mn) (js_mul (Fin (of_nat (Suc i))) (bin_width mn mx (clamp bins 5 60)))))
                                      (Fin 2),
                      count = 0\<rparr>) [0..<nat (clamp bins 5 60)])"
proof -
  define k where "k = clamp bins 5 60"
  define width where "width = bin_width mn mx k"
  define edge where "edge = (\<lambda>i. js_add (Fin mn) (js_mul (Fin (of_nat i)) width))"
  define edges where "edges = map edge [0..<Suc (nat k)]"
  have nth: "edges ! i = edge i" if "i \<le> nat k" for i
    unfolding edges_def using that by (simp only: nth_map_upt[of i "Suc (nat k)" 0 edge]) simp
  have rows: "map (\<lambda>i. \<lparr>x0 = edges ! i, x1 = edges ! (i + 1),
                         center = js_div (js_add (edges ! i) (edges ! (i + 1))) (Fin 2), count = 0\<rparr>) [0..<nat k] =
              map (\<lambda>i. \<lparr>x0 = edge i, x1 = edge (Suc i),
                         center = js_div (js_add (edge i) (edge (Suc i))) (Fin 2), count = 0\<rparr>) [0..<nat k]"
    by (rule map_cong[OF refl]) (simp add: nth)
  have "toHistogram values bins mode =
        count_values mn mx width k (finite_values values)
          (map (\<lambda>i. \<lparr>x0 = edges ! i, x1 = edges ! (i + 1),
                      center = js_div (js_add (edges ! i) (edges ! (i + 1))) (Fin 2), count = 0\<rparr>) [0..<nat k])"
    using assms by (simp add: toHistogram_def Let_def k_def width_def edges_def edge_def)
  then show ?thesis unfolding rows unfolding edge_def width_def k_def .
qed

lemma toHistogram_empty: "finite_values values = [] \<Longrightarrow> toHistogram values bins mode = Inr []"
  by (simp add: toHistogram_def)

lemma toHistogram_closed:
  assumes "finite_values values \<noteq> []" "hist_domain (finite_values values) mode = (mn, mx)"
    and "toHistogram values bins mode = Inr h"
  shows "h = map (\<lambda>i. \<lparr>x0 = js_add (Fin mn) (js_mul (Fin (of_nat i)) (bin_width mn mx (clamp bins 5 60))),
                      x1 = js_add (Fin mn) (js_mul (Fin (of_nat (Suc i))) (bin_width mn mx (clamp bins 5 60))),
                      center = js_div (js_add (js_add (Fin mn) (js_mul (Fin (of_nat i)) (bin_width mn mx (clamp bins 5 60))))
                                              (js_add (Fin mn) (js_mul (Fin (of_nat (Suc i))) (bin_width mn mx (clamp bins 5 60)))))
                                      (Fin 2),
                      count = length (filter (\<lambda>v. mn \<le> v \<and> v \<le> mx \<and>
                                 bin_index mn (bin_width mn mx (clamp bins 5 60)) (clamp bins 5 60) v = Fin (of_nat i))
                                 (finite_values values))\<rparr>) [0..<nat (clamp bins 5 60)]"
proof -
  note c = count_values_closed[OF assms(3)[unfolded toHistogram_unfold[OF assms(1,2)]]]
  show ?thesis by (subst c) (simp add: comp_def)
qed

lemma toHistogram_returns:
  assumes "hist_domain (finite_values values) mode = (mn, mx)"
    and "bin_width mn mx (clamp bins 5 60) = Fin w"
  shows "\<exists>h. toHistogram values bins mode = Inr h"
proof (cases "finite_values values = []")
  case True
  then show ?thesis by (simp add: toHistogram_empty)
next
  case False
  have k: "0 < clamp bins 5 60" using clamp_bounds[of 5 60 bins] by simp
  have "0 < w" using bin_width_cases[OF hist_domain_ordered[OF assms(1)] k] assms(2) by simp
  then have w: "w \<noteq> 0" by simp
  show ?thesis
    unfolding toHistogram_unfold[OF False assms(1)] assms(2)
    by (rule count_values_returns[OF k w]) (use k in simp)
qed












text \<open>The example of the specification.\<close>

lemma upt_5: "[0..<5] = [0, 1, 2, 3, 4::nat]"
  by (simp add: upt_rec)


lemma round_double_five_halves: "round_double (5 / 2) = Fin (5 / 2)"
proof -
  have "round_double (5 / 2) = Fin (of_int (5 * 2 ^ 50) * pow2 (1 - 52))"
    by (rule round_double_at) (simp_all add: pow2_def)
  then show ?thesis by (simp add: pow2_def)
qed

lemma histogram_of_example:
  "toHistogram [Fin (- 5), Fin (- 1), Fin 0, Fin 1, Fin 5] 2 Residual =
     Inr [\<lparr>x0 = Fin (- 5), x1 = Fin (- 3), center = Fin (- 4), count = 1\<rparr>,
          \<lparr>x0 = Fin (- 3), x1 = Fin (- 1), center = Fin (- 2), count = 0\<rparr>,
          \<lparr>x0 = Fin (- 1), x1 = Fin 1, center = Fin 0, count = 2\<rparr>,
          \<lparr>x0 = Fin 1, x1 = Fin 3, center = Fin 2, count = 1\<rparr>,
          \<lparr>x0 = Fin 3, x1 = Fin 5, center = Fin 4, count = 1\<rparr>]"
proof -
  let ?V = "[Fin (- 5), Fin (- 1), Fin 0, Fin 1, Fin 5]"
  have d: "hist_domain (finite_values ?V) Residual = (- 5, 5)" by (simp add: hist_domain_def)
  have k: "clamp 2 5 60 = 5" by (simp add: clamp_def js_round_def)
  have w: "bin_width (- 5) 5 5 = Fin 2"
    by (simp add: bin_width_def js_sub_Fin round_double_numeral)
  have ne: "finite_values ?V \<noteq> []" by simp
  have "\<exists>h. toHistogram ?V 2 Residual = Inr h"
    by (rule toHistogram_returns[OF d]) (simp only: k w)
  then obtain h where h: "toHistogram ?V 2 Residual = Inr h" by blast
  note c = toHistogram_closed[OF ne d h, unfolded k w]
  have fl: "\<lfloor>5 / 2 :: rat\<rfloor> = 2" by (simp add: floor_eq_iff)
  show ?thesis unfolding h
    by (subst c) (simp add: upt_5 bin_index_def js_sub_Fin round_double_numeral round_double_minus
        round_double_0 round_double_1 round_double_five_halves fl)
qed

text \<open>
  C2, as stated, fails: the requested count 2 is clamped to 5, so there are five bins and not
  two, and their counts are not 2 and 3.
\<close>

theorem toHistogram_example_counterexample:
  "\<not> isl (toHistogram [Fin (- 5), Fin (- 1), Fin 0, Fin 1, Fin 5] 2 Residual) \<and>
   length (projr (toHistogram [Fin (- 5), Fin (- 1), Fin 0, Fin 1, Fin 5] 2 Residual)) \<noteq> 2 \<and>
   map count (projr (toHistogram [Fin (- 5), Fin (- 1), Fin 0, Fin 1, Fin 5] 2 Residual)) \<noteq> [2, 3]"
  by (simp add: histogram_of_example)

text \<open>
  C2 (amended): for \<open>[-5, -1, 0, 1, 5]\<close> with requested count 2 in residual mode the domain is
  the symmetric interval from -5 to 5, the count is clamped to 5, and the result is five bins
  of width 2 with the counts 1, 0, 2, 1, 1; the maximum 5 is in the last bin.
\<close>

theorem toHistogram_example:
  "hist_domain (finite_values [Fin (- 5), Fin (- 1), Fin 0, Fin 1, Fin 5]) Residual = (- 5, 5) \<and>
   clamp 2 5 60 = 5 \<and>
   toHistogram [Fin (- 5), Fin (- 1), Fin 0, Fin 1, Fin 5] 2 Residual =
     Inr [\<lparr>x0 = Fin (- 5), x1 = Fin (- 3), center = Fin (- 4), count = 1\<rparr>,
          \<lparr>x0 = Fin (- 3), x1 = Fin (- 1), center = Fin (- 2), count = 0\<rparr>,
          \<lparr>x0 = Fin (- 1), x1 = Fin 1, center = Fin 0, count = 2\<rparr>,
          \<lparr>x0 = Fin 1, x1 = Fin 3, center = Fin 2, count = 1\<rparr>,
          \<lparr>x0 = Fin 3, x1 = Fin 5, center = Fin 4, count = 1\<rparr>]"
proof -
  have d: "hist_domain (finite_values [Fin (- 5), Fin (- 1), Fin 0, Fin 1, Fin 5]) Residual = (- 5, 5)"
    by (simp add: hist_domain_def)
  have k: "clamp 2 5 60 = 5" by (simp add: clamp_def js_round_def)
  show ?thesis by (intro conjI) (rule d k histogram_of_example)+
qed














end
